theory Spec2Isabelle
  imports Complex_Main "HOL-Library.Word"
begin

section \<open>Strings\<close>

text \<open>
  Identifiers, tokens and messages are HOL strings. \<open>String.prototype.trim\<close> removes
  white space at both ends; the white-space code units below 256 are TAB, LF, VT, FF, CR,
  SPACE and NBSP. \<open>toLowerCase\<close> is modelled on the letters A to Z, and
  \<open>String.prototype.includes\<close> is \<open>str_includes\<close>.
\<close>

definition is_js_space :: "char \<Rightarrow> bool" where
  "is_js_space c = (of_char c \<in> {9, 10, 11, 12, 13, 32, 160 :: nat})"

definition trim :: "string \<Rightarrow> string" where
  "trim s = rev (dropWhile is_js_space (rev (dropWhile is_js_space s)))"

definition lower_char :: "char \<Rightarrow> char" where
  "lower_char c =
     (case map_of (zip ''ABCDEFGHIJKLMNOPQRSTUVWXYZ'' ''abcdefghijklmnopqrstuvwxyz'') c of
        Some d \<Rightarrow> d
      | None \<Rightarrow> c)"

definition toLowerCase :: "string \<Rightarrow> string" where
  "toLowerCase s = map lower_char s"

fun starts_with :: "string \<Rightarrow> string \<Rightarrow> bool" where
  "starts_with s [] = True"
| "starts_with [] (p # ps) = False"
| "starts_with (c # cs) (p # ps) = (c = p \<and> starts_with cs ps)"

fun str_includes :: "string \<Rightarrow> string \<Rightarrow> bool" where
  "str_includes [] p = (p = [])"
| "str_includes (c # cs) p = (starts_with (c # cs) p \<or> str_includes cs p)"

section \<open>The recipient collection (db.js)\<close>

datatype rstatus = PENDING | SENT | FAILED | OPENED

text \<open>
  One document of the \<open>Recipient\<close> collection. \<open>rid\<close> is \<open>_id\<close>; dates are
  milliseconds since the epoch, \<open>None\<close> is \<open>null\<close>.
\<close>

record recipient =
  rid :: nat
  campaign_id :: nat
  email :: string
  status :: rstatus
  tracking_token :: string
  message_id :: "string option"
  error :: "string option"
  sent_at :: "int option"
  opened_at :: "int option"
  open_count :: nat
  updated_at :: int

text \<open>
  The collection is a list in creation order. \<open>updateOne\<close> changes the first document
  that matches the filter and no other; \<open>findOne\<close> returns the first match.
\<close>

fun updateOne :: "('a \<Rightarrow> bool) \<Rightarrow> ('a \<Rightarrow> 'a) \<Rightarrow> 'a list \<Rightarrow> 'a list" where
  "updateOne P f [] = []"
| "updateOne P f (x # xs) = (if P x then f x # xs else x # updateOne P f xs)"

definition findOne :: "('a \<Rightarrow> bool) \<Rightarrow> 'a list \<Rightarrow> 'a option" where
  "findOne P xs = find P xs"

definition getPendingRecipients :: "nat \<Rightarrow> recipient list \<Rightarrow> recipient list" where
  "getPendingRecipients campaignId rs =
     filter (\<lambda>r. campaign_id r = campaignId \<and> status r = PENDING) rs"

definition markRecipientSent ::
  "nat \<Rightarrow> string option \<Rightarrow> int \<Rightarrow> recipient list \<Rightarrow> recipient list" where
  "markRecipientSent recipientId messageId ts rs =
     updateOne (\<lambda>r. rid r = recipientId)
       (\<lambda>r. r\<lparr>status := SENT,
              message_id := (case messageId of None \<Rightarrow> None | Some m \<Rightarrow> if m = [] then None else Some m),
              sent_at := Some ts, updated_at := ts\<rparr>) rs"

definition markRecipientFailed ::
  "nat \<Rightarrow> string \<Rightarrow> int \<Rightarrow> recipient list \<Rightarrow> recipient list" where
  "markRecipientFailed recipientId errorMessage ts rs =
     updateOne (\<lambda>r. rid r = recipientId)
       (\<lambda>r. r\<lparr>status := FAILED,
              error := Some (take 500 (if errorMessage = [] then ''Unknown send error'' else errorMessage)),
              updated_at := ts\<rparr>) rs"

subsection \<open>Campaign finalization\<close>

record counts =
  sent_count :: nat
  failed_count :: nat
  pending_count :: nat

text \<open>The \<open>$group\<close> stage of \<open>finalizeCampaignStatus\<close>: one pass over the campaign's recipients.\<close>

definition aggregate_counts :: "nat \<Rightarrow> recipient list \<Rightarrow> counts" where
  "aggregate_counts campaignId rs =
     (let mine = filter (\<lambda>r. campaign_id r = campaignId) rs in
      \<lparr>sent_count = length (filter (\<lambda>r. status r \<in> {SENT, OPENED}) mine),
       failed_count = length (filter (\<lambda>r. status r = FAILED) mine),
       pending_count = length (filter (\<lambda>r. status r = PENDING) mine)\<rparr>)"

definition status_of_counts :: "nat \<Rightarrow> nat \<Rightarrow> nat \<Rightarrow> string" where
  "status_of_counts sentCount failedCount pendingCount =
     (if pendingCount > 0 then ''SENDING''
      else if sentCount > 0 \<and> failedCount > 0 then ''PARTIAL''
      else if sentCount = 0 \<and> failedCount > 0 then ''FAILED''
      else ''COMPLETED'')"

subsection \<open>Open tracking\<close>

datatype ignore_reason = recipient_not_sent_yet | too_soon_after_send

datatype open_event =
    Ignored ignore_reason nat
  | Opened nat rstatus nat "int option" bool

record open_options =
  minSecondsAfterSent :: int
  ignoreBeforeSent :: bool

definition save :: "recipient \<Rightarrow> recipient list \<Rightarrow> recipient list" where
  "save r rs = updateOne (\<lambda>x. rid x = rid r) (\<lambda>_. r) rs"

text \<open>
  \<open>markOpenByToken\<close>, with the clock reading \<open>now\<close> passed in, as a call that runs
  alone: nothing else touches the collection between its \<open>findOne\<close> and its \<open>save\<close>.
  The result \<open>None\<close> is \<open>null\<close> (empty or unknown token); \<open>Opened\<close> carries recipient
  id, status, openCount, openedAt and isFirstOpen.
\<close>

definition markOpenByToken ::
  "string \<Rightarrow> open_options \<Rightarrow> int \<Rightarrow> recipient list \<Rightarrow> open_event option \<times> recipient list" where
  "markOpenByToken trackingToken options now rs =
     (let token = trim trackingToken in
      if token = [] then (None, rs)
      else
        let minSeconds = max 0 (minSecondsAfterSent options) in
        case findOne (\<lambda>r. tracking_token r = token) rs of
          None \<Rightarrow> (None, rs)
        | Some recipient \<Rightarrow>
            if ignoreBeforeSent options \<and> sent_at recipient = None
            then (Some (Ignored recipient_not_sent_yet (rid recipient)), rs)
            else if minSeconds > 0 \<and>
                    (case sent_at recipient of
                       None \<Rightarrow> False
                     | Some sentAtMs \<Rightarrow>
                         (let elapsedSeconds = (now - sentAtMs) div 1000
                          in elapsedSeconds \<ge> 0 \<and> elapsedSeconds < minSeconds))
            then (Some (Ignored too_soon_after_send (rid recipient)), rs)
            else
              let isFirstOpen = (open_count recipient = 0);
                  r' = recipient
                    \<lparr>open_count := open_count recipient + 1,
                     opened_at := (case opened_at recipient of None \<Rightarrow> Some now | Some t \<Rightarrow> Some t),
                     updated_at := now,
                     status := (if status recipient \<noteq> FAILED then OPENED else status recipient)\<rparr>
              in (Some (Opened (rid r') (status r') (open_count r') (opened_at r') isFirstOpen),
                  save r' rs))"

text \<open>
  The same function in the two stretches that its \<open>await\<close>s divide it into. The first
  runs from the answer of \<open>findOne\<close> to the return of \<open>null\<close> or of an ignored result,
  or to the \<open>await\<close> of \<open>save\<close>, holding the loaded document with its four assignments
  and the result to return; the second is the \<open>save\<close> of that document, which writes it
  over the stored one, the schemas being declared without a version key.
\<close>

datatype open_phase = Returned "open_event option" | Saving recipient open_event

definition markOpenByToken_load ::
  "string \<Rightarrow> open_options \<Rightarrow> int \<Rightarrow> recipient list \<Rightarrow> open_phase" where
  "markOpenByToken_load trackingToken options now rs =
     (let token = trim trackingToken in
      if token = [] then Returned None
      else
        let minSeconds = max 0 (minSecondsAfterSent options) in
        case findOne (\<lambda>r. tracking_token r = token) rs of
          None \<Rightarrow> Returned None
        | Some recipient \<Rightarrow>
            if ignoreBeforeSent options \<and> sent_at recipient = None
            then Returned (Some (Ignored recipient_not_sent_yet (rid recipient)))
            else if minSeconds > 0 \<and>
                    (case sent_at recipient of
                       None \<Rightarrow> False
                     | Some sentAtMs \<Rightarrow>
                         (let elapsedSeconds = (now - sentAtMs) div 1000
                          in elapsedSeconds \<ge> 0 \<and> elapsedSeconds < minSeconds))
            then Returned (Some (Ignored too_soon_after_send (rid recipient)))
            else
              let isFirstOpen = (open_count recipient = 0);
                  r' = recipient
                    \<lparr>open_count := open_count recipient + 1,
                     opened_at := (case opened_at recipient of None \<Rightarrow> Some now | Some t \<Rightarrow> Some t),
                     updated_at := now,
                     status := (if status recipient \<noteq> FAILED then OPENED else status recipient)\<rparr>
              in Saving r' (Opened (rid r') (status r') (open_count r') (opened_at r') isFirstOpen))"

definition markOpenByToken_save :: "recipient \<Rightarrow> recipient list \<Rightarrow> recipient list" where
  "markOpenByToken_save r' rs = save r' rs"

text \<open>
  The two parts of \<open>markOpenByToken\<close> named for the proofs: the minimum-delay test and
  the update of an accepted open.
\<close>

definition too_soon :: "open_options \<Rightarrow> int \<Rightarrow> recipient \<Rightarrow> bool" where
  "too_soon options now recipient =
     (max 0 (minSecondsAfterSent options) > 0 \<and>
      (case sent_at recipient of
         None \<Rightarrow> False
       | Some sentAtMs \<Rightarrow>
           (let elapsedSeconds = (now - sentAtMs) div 1000
            in elapsedSeconds \<ge> 0 \<and> elapsedSeconds < max 0 (minSecondsAfterSent options))))"

definition opened_once :: "int \<Rightarrow> recipient \<Rightarrow> recipient" where
  "opened_once now r =
     r\<lparr>open_count := open_count r + 1,
       opened_at := (case opened_at r of None \<Rightarrow> Some now | Some t \<Rightarrow> Some t),
       updated_at := now,
       status := (if status r \<noteq> FAILED then OPENED else status r)\<rparr>"

section \<open>The pixel handler (routes/api.js)\<close>

text \<open>
  \<open>Number(process.env.OPEN_TRACK_MIN_SECONDS_AFTER_SEND || 5)\<close>: the environment
  variable is absent or empty (\<open>None\<close>) or converts to a number, which is finite or one of
  NaN and the two infinities.
\<close>

datatype jsnum = NaN | PosInfinity | NegInfinity | Finite rat

definition math_round :: "rat \<Rightarrow> int" where
  "math_round q = \<lfloor>q + 1 / 2\<rfloor>"

definition getTrackingMinSecondsAfterSend :: "jsnum option \<Rightarrow> int" where
  "getTrackingMinSecondsAfterSend env_value =
     (case (case env_value of None \<Rightarrow> Finite 5 | Some v \<Rightarrow> v) of
        Finite parsed \<Rightarrow> if parsed < 0 then 5 else min (math_round parsed) 300
      | _ \<Rightarrow> 5)"

text \<open>
  What the handler reads of a request: the token (path or query parameter), the
  \<open>force_track\<close> query parameter, and the verdict of \<open>detectAutomatedOpenHit\<close>, whose
  reason is empty when the request does not look automated.
\<close>

record pixel_request =
  req_token :: string
  force_track :: string
  automated :: bool
  automated_reason :: string

definition processOpenTracking ::
  "bool \<Rightarrow> string \<Rightarrow> string \<Rightarrow> int \<Rightarrow> int \<Rightarrow> recipient list \<Rightarrow> open_event option \<times> recipient list" where
  "processOpenTracking dbConnected token skipReason minSeconds now rs =
     (if token = [] \<or> \<not> dbConnected then (None, rs)
      else if trim skipReason \<noteq> [] then (None, rs)
      else markOpenByToken token \<lparr>minSecondsAfterSent = minSeconds, ignoreBeforeSent = True\<rparr> now rs)"

definition forceTrack :: "pixel_request \<Rightarrow> bool" where
  "forceTrack req = (toLowerCase (trim (force_track req)) \<in> {''1'', ''true'', ''yes''})"

definition handlePixelHit ::
  "bool \<Rightarrow> jsnum option \<Rightarrow> pixel_request \<Rightarrow> int \<Rightarrow> recipient list \<Rightarrow> open_event option \<times> recipient list" where
  "handlePixelHit dbConnected env_value req now rs =
     processOpenTracking dbConnected (trim (req_token req))
       (if forceTrack req then [] else if automated req then automated_reason req else [])
       (if forceTrack req then 0 else getTrackingMinSecondsAfterSend env_value)
       now rs"

subsection \<open>Sequences of pixel hits\<close>

text \<open>
  Successive calls of \<open>markOpenByToken\<close> on one token, each run alone, with its options
  and clock reading; the results are returned in call order. A call is accepted when it
  returns an open event, neither \<open>null\<close> nor an ignored result.
\<close>

fun open_calls ::
  "string \<Rightarrow> (open_options \<times> int) list \<Rightarrow> recipient list
     \<Rightarrow> open_event option list \<times> recipient list" where
  "open_calls tok [] rs = ([], rs)"
| "open_calls tok (c # cs) rs =
     (let (e, rs') = markOpenByToken tok (fst c) (snd c) rs;
          (es, rs'') = open_calls tok cs rs'
      in (e # es, rs''))"

fun accepted :: "open_event option \<Rightarrow> bool" where
  "accepted (Some (Opened i st n t b)) = True"
| "accepted _ = False"

definition first_accepted_time ::
  "(open_options \<times> int) list \<Rightarrow> open_event option list \<Rightarrow> int option" where
  "first_accepted_time cs es =
     map_option (\<lambda>p. snd (fst p)) (find (\<lambda>p. accepted (snd p)) (zip cs es))"

subsection \<open>Overlapping pixel hits\<close>

text \<open>
  Requests are served concurrently: while one call of \<open>markOpenByToken\<close> waits for its
  \<open>save\<close>, another may look the same recipient up. A history of calls on one token is a
  list of actions: \<open>Call\<close> starts a call, which runs to its return or to its \<open>save\<close>;
  \<open>Complete j\<close> carries out the \<open>save\<close> that is at position \<open>j\<close> among those waiting,
  and the call returns. The state is the collection, the documents waiting to be saved, each
  with the result its call will return, and the results returned so far.
\<close>

datatype open_action = Call open_options int | Complete nat

record open_state =
  docs :: "recipient list"
  saving :: "(recipient \<times> open_event) list"
  returned :: "open_event option list"

fun open_step :: "string \<Rightarrow> open_action \<Rightarrow> open_state \<Rightarrow> open_state" where
  "open_step tok (Call options now) st =
     (case markOpenByToken_load tok options now (docs st) of
        Returned e \<Rightarrow> st\<lparr>returned := returned st @ [e]\<rparr>
      | Saving r' e \<Rightarrow> st\<lparr>saving := saving st @ [(r', e)]\<rparr>)"
| "open_step tok (Complete j) st =
     (if j < length (saving st)
      then st\<lparr>docs := markOpenByToken_save (fst (saving st ! j)) (docs st),
              saving := take j (saving st) @ drop (Suc j) (saving st),
              returned := returned st @ [Some (snd (saving st ! j))]\<rparr>
      else st)"

definition open_run :: "string \<Rightarrow> open_action list \<Rightarrow> recipient list \<Rightarrow> open_state" where
  "open_run tok acts rs = fold (open_step tok) acts \<lparr>docs = rs, saving = [], returned = []\<rparr>"

text \<open>The history in which every call has returned before the next one starts.\<close>

definition one_at_a_time :: "(open_options \<times> int) list \<Rightarrow> open_action list" where
  "one_at_a_time calls = concat (map (\<lambda>c. [Call (fst c) (snd c), Complete 0]) calls)"
section \<open>Campaigns and accounts (db.js)\<close>

record campaign =
  cid :: nat
  subject :: string
  body_text :: string
  cstatus :: string
  scheduled_at :: "int option"
  account_email :: string
  account_type :: string
  created_at :: int

definition updateCampaignStatus :: "nat \<Rightarrow> string \<Rightarrow> campaign list \<Rightarrow> campaign list" where
  "updateCampaignStatus i st cs = updateOne (\<lambda>c. cid c = i) (\<lambda>c. c\<lparr>cstatus := st\<rparr>) cs"

definition queueCampaignNow :: "nat \<Rightarrow> campaign list \<Rightarrow> campaign list" where
  "queueCampaignNow i cs =
     updateOne (\<lambda>c. cid c = i) (\<lambda>c. c\<lparr>cstatus := ''QUEUED'', scheduled_at := None\<rparr>) cs"

definition getDueCampaigns :: "int \<Rightarrow> campaign list \<Rightarrow> campaign list" where
  "getDueCampaigns now cs =
     sort_key created_at
       (filter (\<lambda>c. cstatus c \<in> {''QUEUED'', ''SCHEDULED''} \<and>
                    (case scheduled_at c of None \<Rightarrow> True | Some t \<Rightarrow> t \<le> now)) cs)"

definition finalizeCampaignStatus ::
  "nat \<Rightarrow> recipient list \<Rightarrow> campaign list \<Rightarrow> string \<times> campaign list" where
  "finalizeCampaignStatus campaignId rs cs =
     (let k = aggregate_counts campaignId rs;
          st = status_of_counts (sent_count k) (failed_count k) (pending_count k)
      in (st, updateCampaignStatus campaignId st cs))"

text \<open>
  The three account collections, keyed by normalized email. An SMTP account carries its
  connection settings and no token set; the token set of a Google or Microsoft account is
  opaque to the runner.
\<close>

record smtp_account =
  smtp_email :: string
  host :: string
  port :: nat
  secure :: bool
  username :: string
  password :: string
  from_name :: string

record 'tok accounts =
  google_accounts :: "(string \<times> 'tok) list"
  microsoft_accounts :: "(string \<times> 'tok) list"
  smtp_accounts :: "smtp_account list"

datatype 'tok account = OAuth string 'tok | Smtp smtp_account

fun account_email_of :: "'tok account \<Rightarrow> string" where
  "account_email_of (OAuth e t) = e"
| "account_email_of (Smtp a) = smtp_email a"

fun account_tokens :: "'tok account \<Rightarrow> 'tok option" where
  "account_tokens (OAuth e t) = Some t"
| "account_tokens (Smtp a) = None"

definition normalizeEmail :: "string \<Rightarrow> string" where
  "normalizeEmail e = toLowerCase (trim e)"

definition getGoogleAccount :: "string \<Rightarrow> 'tok accounts \<Rightarrow> 'tok account option" where
  "getGoogleAccount e a =
     map_option (\<lambda>p. OAuth (fst p) (snd p)) (findOne (\<lambda>p. fst p = normalizeEmail e) (google_accounts a))"

definition getMicrosoftAccount :: "string \<Rightarrow> 'tok accounts \<Rightarrow> 'tok account option" where
  "getMicrosoftAccount e a =
     map_option (\<lambda>p. OAuth (fst p) (snd p)) (findOne (\<lambda>p. fst p = normalizeEmail e) (microsoft_accounts a))"

definition getSmtpAccount :: "string \<Rightarrow> 'tok accounts \<Rightarrow> 'tok account option" where
  "getSmtpAccount e a =
     map_option Smtp (findOne (\<lambda>p. smtp_email p = normalizeEmail e) (smtp_accounts a))"

definition updateGoogleAccountTokens :: "string \<Rightarrow> 'tok \<Rightarrow> 'tok accounts \<Rightarrow> 'tok accounts" where
  "updateGoogleAccountTokens e t a =
     a\<lparr>google_accounts := updateOne (\<lambda>p. fst p = normalizeEmail e) (\<lambda>p. (fst p, t)) (google_accounts a)\<rparr>"

definition updateMicrosoftAccountTokens :: "string \<Rightarrow> 'tok \<Rightarrow> 'tok accounts \<Rightarrow> 'tok accounts" where
  "updateMicrosoftAccountTokens e t a =
     a\<lparr>microsoft_accounts := updateOne (\<lambda>p. fst p = normalizeEmail e) (\<lambda>p. (fst p, t)) (microsoft_accounts a)\<rparr>"

section \<open>The campaign runner (services/campaignRunner.js)\<close>

text \<open>
  The runner's surroundings are a world \<open>'w\<close> that the model only reads through the
  functions of an environment: the clock, the state of the store connection, the answer of
  the store to a call, and the three provider sends. The store answers a call with the
  message of a rejection or with none, when the call is carried out, and a changed world; a
  provider send answers with an error message (\<open>Inl\<close>, the exception's \<open>message\<close>) or a
  result, and a changed world. A Gmail or Microsoft send takes the token set handed to it
  and returns the message id and the token set to use next.
\<close>

record ('w, 'tok) env =
  clock :: "'w \<Rightarrow> int"
  db_up :: "'w \<Rightarrow> bool"
  db_answer :: "'w \<Rightarrow> string option \<times> 'w"
  smtp_send :: "'w \<Rightarrow> campaign \<Rightarrow> recipient \<Rightarrow> 'tok account \<Rightarrow> (string + string option) \<times> 'w"
  microsoft_send ::
    "'w \<Rightarrow> campaign \<Rightarrow> recipient \<Rightarrow> 'tok option \<Rightarrow> (string + string option \<times> 'tok) \<times> 'w"
  gmail_send ::
    "'w \<Rightarrow> campaign \<Rightarrow> recipient \<Rightarrow> 'tok account \<Rightarrow> 'tok option
       \<Rightarrow> (string + string option \<times> 'tok) \<times> 'w"

text \<open>What the runner does, in order: the trace the properties are stated on.\<close>

datatype 'tok event =
    CampaignStatus nat string
  | DueCampaignsRead
  | SendAttempt string nat "'tok option"
  | SendReturned nat "'tok option"
  | SendThrew nat string
  | RecipientMarked nat rstatus
  | TokensPersisted string string "'tok option"

text \<open>
  A poll of \<open>processDueCampaigns\<close> that has passed the guard is suspended at one of its
  \<open>await\<close>s: before \<open>getDueCampaigns\<close> answers, between two campaigns, or inside
  \<open>sendCampaign\<close>, in the loop that fails the recipients of a disconnected account or in
  the send loop, holding the recipients still to do and \<open>latestTokens\<close>.
\<close>

datatype 'tok poll =
    AwaitDue int
  | NextCampaign "campaign list"
  | Disconnected "campaign list" campaign string "recipient list"
  | Sending "campaign list" campaign string "'tok account" "recipient list" "'tok option"

record ('w, 'tok) sys =
  recipients :: "recipient list"
  campaigns :: "campaign list"
  accounts :: "'tok accounts"
  world :: 'w
  trace :: "'tok event list"
  isProcessing :: bool
  polls :: "'tok poll list"

definition log :: "'tok event list \<Rightarrow> ('w, 'tok) sys \<Rightarrow> ('w, 'tok) sys" where
  "log es s = s\<lparr>trace := trace s @ es\<rparr>"

definition accountType :: "campaign \<Rightarrow> string" where
  "accountType c = toLowerCase (if account_type c = [] then ''google'' else account_type c)"

definition provider_name :: "string \<Rightarrow> string" where
  "provider_name aType =
     (if aType = ''smtp'' then ''SMTP'' else if aType = ''microsoft'' then ''Microsoft'' else ''Google'')"

definition resolve_account :: "string \<Rightarrow> string \<Rightarrow> 'tok accounts \<Rightarrow> 'tok account option" where
  "resolve_account aType e a =
     (if aType = ''smtp'' then getSmtpAccount e a
      else if aType = ''microsoft'' then getMicrosoftAccount e a
      else getGoogleAccount e a)"

text \<open>
  An awaited call of the store: rejected, it leaves the store as it was and its message is
  thrown at the \<open>await\<close>; carried out, it has the effect \<open>f\<close>, which for a read is none.
\<close>

definition await_store ::
  "('w, 'tok) env \<Rightarrow> (('w, 'tok) sys \<Rightarrow> ('w, 'tok) sys) \<Rightarrow> ('w, 'tok) sys
     \<Rightarrow> string option \<times> ('w, 'tok) sys" where
  "await_store E f s =
     (case db_answer E (world s) of
        (Some msg, w) \<Rightarrow> (Some msg, s\<lparr>world := w\<rparr>)
      | (None, w) \<Rightarrow> (None, (f s)\<lparr>world := w\<rparr>))"

text \<open>The effect of \<open>updateCampaignStatus(campaign.id, 'SENDING')\<close>, the first call of \<open>sendCampaign\<close>.\<close>

definition campaign_begin :: "campaign \<Rightarrow> ('w, 'tok) sys \<Rightarrow> ('w, 'tok) sys" where
  "campaign_begin c s =
     log [CampaignStatus (cid c) ''SENDING'']
       (s\<lparr>campaigns := updateCampaignStatus (cid c) ''SENDING'' (campaigns s)\<rparr>)"

text \<open>
  \<open>sendCampaign\<close> up to its loops: the status write, the account, the pending recipients
  and, with an account, the setting read by \<open>getPublicBaseUrl\<close>. A rejected call ends it
  with the message (\<open>Inl\<close>); otherwise it reaches the loops with the account, if there is
  one, and the pending recipients.
\<close>

definition campaign_start ::
  "('w, 'tok) env \<Rightarrow> campaign \<Rightarrow> ('w, 'tok) sys
     \<Rightarrow> (string + 'tok account option \<times> recipient list) \<times> ('w, 'tok) sys" where
  "campaign_start E c s =
     (case await_store E (campaign_begin c) s of
        (Some e, s1) \<Rightarrow> (Inl e, s1)
      | (None, s1) \<Rightarrow>
     (case await_store E id s1 of
        (Some e, s2) \<Rightarrow> (Inl e, s2)
      | (None, s2) \<Rightarrow>
     (case await_store E id s2 of
        (Some e, s3) \<Rightarrow> (Inl e, s3)
      | (None, s3) \<Rightarrow>
          (let pendingRecipients = getPendingRecipients (cid c) (recipients s3) in
           case resolve_account (accountType c) (account_email c) (accounts s2) of
             None \<Rightarrow> (Inr (None, pendingRecipients), s3)
           | Some account \<Rightarrow>
               (case await_store E id s3 of
                  (Some e, s4) \<Rightarrow> (Inl e, s4)
                | (None, s4) \<Rightarrow> (Inr (Some account, pendingRecipients), s4))))))"

text \<open>
  The effects of the calls made in the loops: \<open>markRecipientFailed\<close> for a campaign whose
  account is gone, and \<open>markRecipientSent\<close> and \<open>markRecipientFailed\<close> in the send loop.
\<close>

definition fail_one ::
  "('w, 'tok) env \<Rightarrow> campaign \<Rightarrow> string \<Rightarrow> recipient \<Rightarrow> ('w, 'tok) sys \<Rightarrow> ('w, 'tok) sys" where
  "fail_one E c aType r s =
     log [RecipientMarked (rid r) FAILED]
       (s\<lparr>recipients :=
            markRecipientFailed (rid r)
              (provider_name aType @ '' account '' @ account_email c @ '' is no longer connected.'')
              (clock E (world s)) (recipients s)\<rparr>)"

definition mark_sent ::
  "('w, 'tok) env \<Rightarrow> recipient \<Rightarrow> string option \<Rightarrow> ('w, 'tok) sys \<Rightarrow> ('w, 'tok) sys" where
  "mark_sent E r messageId s =
     log [RecipientMarked (rid r) SENT]
       (s\<lparr>recipients := markRecipientSent (rid r) messageId (clock E (world s)) (recipients s)\<rparr>)"

definition mark_failed ::
  "('w, 'tok) env \<Rightarrow> recipient \<Rightarrow> string \<Rightarrow> ('w, 'tok) sys \<Rightarrow> ('w, 'tok) sys" where
  "mark_failed E r msg s =
     log [RecipientMarked (rid r) FAILED]
       (s\<lparr>recipients :=
            markRecipientFailed (rid r) (if msg = [] then ''Send failed'' else msg)
              (clock E (world s)) (recipients s)\<rparr>)"

text \<open>
  The provider call of one turn of the send loop, by account type. It answers with the
  error message or with the message id and the value \<open>latestTokens\<close> has after the call:
  the token set returned by a Microsoft or Gmail send, the same as before for SMTP.
\<close>

definition provider_send ::
  "('w, 'tok) env \<Rightarrow> campaign \<Rightarrow> string \<Rightarrow> 'tok account \<Rightarrow> recipient \<Rightarrow> 'tok option
     \<Rightarrow> ('w, 'tok) sys \<Rightarrow> (string + string option \<times> 'tok option) \<times> ('w, 'tok) sys" where
  "provider_send E c aType account r latestTokens s =
     (if aType = ''smtp'' then
        (case smtp_send E (world s) c r account of
           (Inr messageId, w) \<Rightarrow>
             (Inr (messageId, latestTokens),
              log [SendAttempt aType (rid r) None, SendReturned (rid r) None] (s\<lparr>world := w\<rparr>))
         | (Inl msg, w) \<Rightarrow>
             (Inl msg, log [SendAttempt aType (rid r) None, SendThrew (rid r) msg] (s\<lparr>world := w\<rparr>)))
      else if aType = ''microsoft'' then
        (case microsoft_send E (world s) c r latestTokens of
           (Inr sendResult, w) \<Rightarrow>
             (Inr (fst sendResult, Some (snd sendResult)),
              log [SendAttempt aType (rid r) latestTokens, SendReturned (rid r) (Some (snd sendResult))]
                (s\<lparr>world := w\<rparr>))
         | (Inl msg, w) \<Rightarrow>
             (Inl msg, log [SendAttempt aType (rid r) latestTokens, SendThrew (rid r) msg] (s\<lparr>world := w\<rparr>)))
      else
        (case gmail_send E (world s) c r account latestTokens of
           (Inr sendResult, w) \<Rightarrow>
             (Inr (fst sendResult, Some (snd sendResult)),
              log [SendAttempt aType (rid r) latestTokens, SendReturned (rid r) (Some (snd sendResult))]
                (s\<lparr>world := w\<rparr>))
         | (Inl msg, w) \<Rightarrow>
             (Inl msg, log [SendAttempt aType (rid r) latestTokens, SendThrew (rid r) msg] (s\<lparr>world := w\<rparr>))))"

text \<open>
  One turn of the send loop: the \<open>try\<close> and the \<open>catch\<close>. The state of the loop is
  \<open>latestTokens\<close> and the system. A send that returned has assigned \<open>latestTokens\<close>
  before \<open>markRecipientSent\<close> is awaited; a rejection of \<open>markRecipientSent\<close> is thrown
  inside the \<open>try\<close> and so is caught like a failed send; a rejection of
  \<open>markRecipientFailed\<close> is thrown inside the \<open>catch\<close> and ends \<open>sendCampaign\<close>.
\<close>

definition send_one ::
  "('w, 'tok) env \<Rightarrow> campaign \<Rightarrow> string \<Rightarrow> 'tok account \<Rightarrow> recipient
     \<Rightarrow> 'tok option \<times> ('w, 'tok) sys \<Rightarrow> (string + 'tok option) \<times> ('w, 'tok) sys" where
  "send_one E c aType account r st =
     (case provider_send E c aType account r (fst st) (snd st) of
        (Inr sendResult, s1) \<Rightarrow>
          (case await_store E (mark_sent E r (fst sendResult)) s1 of
             (None, s2) \<Rightarrow> (Inr (snd sendResult), s2)
           | (Some e, s2) \<Rightarrow>
               (case await_store E (mark_failed E r e) s2 of
                  (None, s3) \<Rightarrow> (Inr (snd sendResult), s3)
                | (Some e', s3) \<Rightarrow> (Inl e', s3)))
      | (Inl msg, s1) \<Rightarrow>
          (case await_store E (mark_failed E r msg) s1 of
             (None, s2) \<Rightarrow> (Inr (fst st), s2)
           | (Some e', s2) \<Rightarrow> (Inl e', s2)))"

text \<open>The two loops of \<open>sendCampaign\<close>, each left by the first rejection that is not caught.\<close>

fun fail_loop ::
  "('w, 'tok) env \<Rightarrow> campaign \<Rightarrow> string \<Rightarrow> recipient list \<Rightarrow> ('w, 'tok) sys
     \<Rightarrow> string option \<times> ('w, 'tok) sys" where
  "fail_loop E c aType [] s = (None, s)"
| "fail_loop E c aType (r # rs) s =
     (case await_store E (fail_one E c aType r) s of
        (Some e, s') \<Rightarrow> (Some e, s')
      | (None, s') \<Rightarrow> fail_loop E c aType rs s')"

fun send_loop ::
  "('w, 'tok) env \<Rightarrow> campaign \<Rightarrow> string \<Rightarrow> 'tok account \<Rightarrow> recipient list
     \<Rightarrow> 'tok option \<times> ('w, 'tok) sys \<Rightarrow> (string + 'tok option) \<times> ('w, 'tok) sys" where
  "send_loop E c aType account [] st = (Inr (fst st), snd st)"
| "send_loop E c aType account (r # rs) st =
     (case send_one E c aType account r st of
        (Inl e, s') \<Rightarrow> (Inl e, s')
      | (Inr latestTokens, s') \<Rightarrow> send_loop E c aType account rs (latestTokens, s'))"

text \<open>After the send loop: the one write of the token set, for a Google or Microsoft campaign.\<close>

definition persist_tokens ::
  "string \<Rightarrow> 'tok account \<Rightarrow> 'tok option \<Rightarrow> ('w, 'tok) sys \<Rightarrow> ('w, 'tok) sys" where
  "persist_tokens aType account latestTokens s =
     (if aType = ''google'' then
        log [TokensPersisted aType (account_email_of account) latestTokens]
          (case latestTokens of
             None \<Rightarrow> s
           | Some t \<Rightarrow> s\<lparr>accounts := updateGoogleAccountTokens (account_email_of account) t (accounts s)\<rparr>)
      else if aType = ''microsoft'' then
        log [TokensPersisted aType (account_email_of account) latestTokens]
          (case latestTokens of
             None \<Rightarrow> s
           | Some t \<Rightarrow> s\<lparr>accounts := updateMicrosoftAccountTokens (account_email_of account) t (accounts s)\<rparr>)
      else s)"

definition persist_call ::
  "('w, 'tok) env \<Rightarrow> string \<Rightarrow> 'tok account \<Rightarrow> 'tok option \<Rightarrow> ('w, 'tok) sys
     \<Rightarrow> string option \<times> ('w, 'tok) sys" where
  "persist_call E aType account latestTokens s =
     (if aType = ''google'' \<or> aType = ''microsoft''
      then await_store E (persist_tokens aType account latestTokens) s
      else (None, s))"

text \<open>
  \<open>finalizeCampaignStatus\<close> as \<open>sendCampaign\<close> awaits it: the aggregation and then the
  status write, each a call of the store.
\<close>

definition campaign_finalize :: "campaign \<Rightarrow> ('w, 'tok) sys \<Rightarrow> ('w, 'tok) sys" where
  "campaign_finalize c s =
     (let fin = finalizeCampaignStatus (cid c) (recipients s) (campaigns s)
      in log [CampaignStatus (cid c) (fst fin)] (s\<lparr>campaigns := snd fin\<rparr>))"

definition finalize_call ::
  "('w, 'tok) env \<Rightarrow> campaign \<Rightarrow> ('w, 'tok) sys \<Rightarrow> string option \<times> ('w, 'tok) sys" where
  "finalize_call E c s =
     (case await_store E id s of
        (Some e, s1) \<Rightarrow> (Some e, s1)
      | (None, s1) \<Rightarrow> await_store E (campaign_finalize c) s1)"

text \<open>
  \<open>sendCampaign\<close>, run from its first line to its return or to the rejection that ends it.
  The result is the message thrown, if any, and the system as it is left.
\<close>

definition sendCampaign ::
  "('w, 'tok) env \<Rightarrow> campaign \<Rightarrow> ('w, 'tok) sys \<Rightarrow> string option \<times> ('w, 'tok) sys" where
  "sendCampaign E c s =
     (case campaign_start E c s of
        (Inl e, s1) \<Rightarrow> (Some e, s1)
      | (Inr (None, pendingRecipients), s1) \<Rightarrow>
          (case fail_loop E c (accountType c) pendingRecipients s1 of
             (Some e, s2) \<Rightarrow> (Some e, s2)
           | (None, s2) \<Rightarrow> finalize_call E c s2)
      | (Inr (Some account, pendingRecipients), s1) \<Rightarrow>
          (case send_loop E c (accountType c) account pendingRecipients (account_tokens account, s1) of
             (Inl e, s2) \<Rightarrow> (Some e, s2)
           | (Inr latestTokens, s2) \<Rightarrow>
               (case persist_call E (accountType c) account latestTokens s2 of
                  (Some e, s3) \<Rightarrow> (Some e, s3)
                | (None, s3) \<Rightarrow> finalize_call E c s3)))"

subsection \<open>The scheduler, one await at a time\<close>

text \<open>
  The process is single-threaded: between two \<open>await\<close>s a poll runs alone, and at an
  \<open>await\<close> anything else may run. A step of the system is therefore one of: a call of
  \<open>processDueCampaigns\<close> (by the timer, at start-up or by a route), which runs up to its
  first \<open>await\<close>; the resumption of a suspended poll up to its next \<open>await\<close>; a pixel
  request; the send-now route; a change of the surroundings. A resumption runs the poll
  through one stage: the read of the due campaigns, \<open>sendCampaign\<close> up to its loops, one
  turn of a loop, or what follows the loop. A rejection that \<open>sendCampaign\<close> does not catch
  runs the \<open>catch\<close> and the \<open>finally\<close> of the poll, which ends.
\<close>

datatype 'w action =
    Poll
  | Advance nat
  | Pixel pixel_request "jsnum option"
  | SendNow nat
  | Surroundings 'w

definition finish_poll :: "nat \<Rightarrow> ('w, 'tok) sys \<Rightarrow> ('w, 'tok) sys" where
  "finish_poll k s = s\<lparr>isProcessing := False, polls := take k (polls s) @ drop (Suc k) (polls s)\<rparr>"

definition set_poll :: "nat \<Rightarrow> 'tok poll \<Rightarrow> ('w, 'tok) sys \<Rightarrow> ('w, 'tok) sys" where
  "set_poll k p s = s\<lparr>polls := (polls s)[k := p]\<rparr>"

text \<open>\<open>processDueCampaigns\<close> from its call to its first \<open>await\<close>.\<close>

definition processDueCampaigns_enter :: "('w, 'tok) env \<Rightarrow> ('w, 'tok) sys \<Rightarrow> ('w, 'tok) sys" where
  "processDueCampaigns_enter E s =
     (if isProcessing s then s
      else if \<not> db_up E (world s) then s
      else s\<lparr>isProcessing := True, polls := polls s @ [AwaitDue (clock E (world s))]\<rparr>)"

text \<open>The poll at position \<open>k\<close>, resumed and run to its next \<open>await\<close> or to its end.\<close>

fun advance :: "('w, 'tok) env \<Rightarrow> nat \<Rightarrow> 'tok poll \<Rightarrow> ('w, 'tok) sys \<Rightarrow> ('w, 'tok) sys" where
  "advance E k (AwaitDue now) s =
     (case await_store E (log [DueCampaignsRead]) s of
        (Some e, s') \<Rightarrow> finish_poll k s'
      | (None, s') \<Rightarrow> set_poll k (NextCampaign (getDueCampaigns now (campaigns s'))) s')"
| "advance E k (NextCampaign []) s = finish_poll k s"
| "advance E k (NextCampaign (c # cs)) s =
     (case campaign_start E c s of
        (Inl e, s') \<Rightarrow> finish_poll k s'
      | (Inr (None, pendingRecipients), s') \<Rightarrow>
          set_poll k (Disconnected cs c (accountType c) pendingRecipients) s'
      | (Inr (Some account, pendingRecipients), s') \<Rightarrow>
          set_poll k (Sending cs c (accountType c) account pendingRecipients (account_tokens account)) s')"
| "advance E k (Disconnected cs c aType []) s =
     (case finalize_call E c s of
        (Some e, s') \<Rightarrow> finish_poll k s'
      | (None, s') \<Rightarrow> set_poll k (NextCampaign cs) s')"
| "advance E k (Disconnected cs c aType (r # rs)) s =
     (case await_store E (fail_one E c aType r) s of
        (Some e, s') \<Rightarrow> finish_poll k s'
      | (None, s') \<Rightarrow> set_poll k (Disconnected cs c aType rs) s')"
| "advance E k (Sending cs c aType account [] latestTokens) s =
     (case persist_call E aType account latestTokens s of
        (Some e, s') \<Rightarrow> finish_poll k s'
      | (None, s') \<Rightarrow>
          (case finalize_call E c s' of
             (Some e, s'') \<Rightarrow> finish_poll k s''
           | (None, s'') \<Rightarrow> set_poll k (NextCampaign cs) s''))"
| "advance E k (Sending cs c aType account (r # rs) latestTokens) s =
     (case send_one E c aType account r (latestTokens, s) of
        (Inl e, s') \<Rightarrow> finish_poll k s'
      | (Inr t, s') \<Rightarrow> set_poll k (Sending cs c aType account rs t) s')"

definition pixel_hit ::
  "('w, 'tok) env \<Rightarrow> pixel_request \<Rightarrow> jsnum option \<Rightarrow> ('w, 'tok) sys \<Rightarrow> ('w, 'tok) sys" where
  "pixel_hit E req env_value s =
     s\<lparr>recipients :=
          snd (handlePixelHit (db_up E (world s)) env_value req (clock E (world s)) (recipients s))\<rparr>"

definition send_now :: "('w, 'tok) env \<Rightarrow> nat \<Rightarrow> ('w, 'tok) sys \<Rightarrow> ('w, 'tok) sys" where
  "send_now E i s =
     (if \<not> db_up E (world s) then s
      else if findOne (\<lambda>c. cid c = i) (campaigns s) = None then s
      else processDueCampaigns_enter E (s\<lparr>campaigns := queueCampaignNow i (campaigns s)\<rparr>))"

fun step :: "('w, 'tok) env \<Rightarrow> 'w action \<Rightarrow> ('w, 'tok) sys \<Rightarrow> ('w, 'tok) sys" where
  "step E Poll s = processDueCampaigns_enter E s"
| "step E (Advance k) s = (if k < length (polls s) then advance E k (polls s ! k) s else s)"
| "step E (Pixel req env_value) s = pixel_hit E req env_value s"
| "step E (SendNow i) s = send_now E i s"
| "step E (Surroundings w) s = s\<lparr>world := w\<rparr>"

definition run :: "('w, 'tok) env \<Rightarrow> 'w action list \<Rightarrow> ('w, 'tok) sys \<Rightarrow> ('w, 'tok) sys" where
  "run E acts s = fold (step E) acts s"

text \<open>
  The start of the process: no poll in flight, the guard clear, and a store whose
  recipients are as \<open>createCampaign\<close> inserted them, each under its own id.
\<close>

definition initial :: "('w, 'tok) sys \<Rightarrow> bool" where
  "initial s =
     (polls s = [] \<and> \<not> isProcessing s \<and> distinct (map rid (recipients s)) \<and>
      list_all (\<lambda>r. status r = PENDING \<and> sent_at r = None) (recipients s))"

definition status_by_id :: "recipient list \<Rightarrow> nat \<Rightarrow> rstatus option" where
  "status_by_id rs i = map_option status (find (\<lambda>r. rid r = i) rs)"

text \<open>The transitions of a recipient's status that the data model allows, and no change.\<close>

fun allowed :: "rstatus option \<Rightarrow> rstatus option \<Rightarrow> bool" where
  "allowed (Some PENDING) (Some SENT) = True"
| "allowed (Some PENDING) (Some FAILED) = True"
| "allowed (Some SENT) (Some OPENED) = True"
| "allowed x y = (x = y)"

fun poll_pending :: "'tok poll \<Rightarrow> recipient list" where
  "poll_pending (Disconnected cs c aType rs) = rs"
| "poll_pending (Sending cs c aType account rs latestTokens) = rs"
| "poll_pending p = []"

text \<open>What holds of every state the system reaches.\<close>

definition store_ok :: "recipient list \<Rightarrow> bool" where
  "store_ok rs =
     (distinct (map rid rs) \<and>
      list_all (\<lambda>r. status r = PENDING \<or> status r = FAILED \<longrightarrow> sent_at r = None) rs)"

definition pending_ok :: "recipient list \<Rightarrow> recipient list \<Rightarrow> bool" where
  "pending_ok rs todo =
     (distinct (map rid todo) \<and> list_all (\<lambda>r. status_by_id rs (rid r) = Some PENDING) todo)"

definition guard_ok :: "('w, 'tok) sys \<Rightarrow> bool" where
  "guard_ok s = (length (polls s) \<le> 1 \<and> isProcessing s = (polls s \<noteq> []))"

definition sys_inv :: "('w, 'tok) sys \<Rightarrow> bool" where
  "sys_inv s =
     (length (polls s) \<le> 1 \<and> isProcessing s = (polls s \<noteq> []) \<and> store_ok (recipients s) \<and>
      list_all (\<lambda>p. pending_ok (recipients s) (poll_pending p)) (polls s))"

subsection \<open>Reading a run of \<open>sendCampaign\<close>\<close>

text \<open>
  What a run has added to the trace, the status of a campaign in the store, and the token
  set of the campaign's account as \<open>sendCampaign\<close> would read it from the store.
\<close>

definition events_since :: "('w, 'tok) sys \<Rightarrow> ('w, 'tok) sys \<Rightarrow> 'tok event list" where
  "events_since s s' = drop (length (trace s)) (trace s')"

definition campaign_status :: "campaign list \<Rightarrow> nat \<Rightarrow> string option" where
  "campaign_status cs i = map_option cstatus (findOne (\<lambda>c. cid c = i) cs)"


text \<open>
  The token set that is freshest after a stretch of the trace: the one returned by the
  last successful send in it, or the one held before. A stretch threads the tokens when
  every send attempt in it is handed the token set that is freshest at that point.
  \<open>attempts\<close> lists the send attempts of a stretch, each with the recipient and the
  token set handed to the provider.
\<close>

fun freshest :: "'tok option \<Rightarrow> 'tok event list \<Rightarrow> 'tok option" where
  "freshest t [] = t"
| "freshest t (SendReturned i t' # es) = freshest t' es"
| "freshest t (e # es) = freshest t es"

fun tokens_threaded :: "'tok option \<Rightarrow> 'tok event list \<Rightarrow> bool" where
  "tokens_threaded t [] = True"
| "tokens_threaded t (SendAttempt k i u # es) = (u = t \<and> tokens_threaded t es)"
| "tokens_threaded t (SendReturned i t' # es) = tokens_threaded t' es"
| "tokens_threaded t (e # es) = tokens_threaded t es"

fun attempts :: "'tok event list \<Rightarrow> (nat \<times> 'tok option) list" where
  "attempts [] = []"
| "attempts (SendAttempt k i u # es) = (i, u) # attempts es"
| "attempts (e # es) = attempts es"

fun is_persist :: "'tok event \<Rightarrow> bool" where
  "is_persist (TokensPersisted k e t) = True"
| "is_persist _ = False"

fun is_campaign_status :: "'tok event \<Rightarrow> bool" where
  "is_campaign_status (CampaignStatus i st) = True"
| "is_campaign_status _ = False"

text \<open>
  The number of a campaign's recipients in a status, and the campaign status that the table
  of \<open>finalizeCampaignStatus\<close> gives for these numbers, a recipient in \<open>OPENED\<close>
  counting as sent.
\<close>

definition count_status :: "nat \<Rightarrow> rstatus \<Rightarrow> recipient list \<Rightarrow> nat" where
  "count_status i st rs = length (filter (\<lambda>r. campaign_id r = i \<and> status r = st) rs)"

definition status_for :: "nat \<Rightarrow> recipient list \<Rightarrow> string" where
  "status_for i rs =
     status_of_counts (count_status i SENT rs + count_status i OPENED rs)
       (count_status i FAILED rs) (count_status i PENDING rs)"

text \<open>
  What a stretch of the send loop over the recipients \<open>rs\<close> is shown to be, from the token
  set \<open>t\<close> to the result \<open>res\<close> of the loop: it threads the tokens, attempts the
  recipients in order, each once, and writes neither tokens nor a campaign status.
\<close>

definition stretch_ok ::
  "'tok option \<Rightarrow> recipient list \<Rightarrow> string + 'tok option \<Rightarrow> 'tok event list \<Rightarrow> bool" where
  "stretch_ok t rs res evs =
     (tokens_threaded t evs \<and> filter is_persist evs = [] \<and> filter is_campaign_status evs = []
      \<and> map fst (attempts evs) = take (length (attempts evs)) (map rid rs)
      \<and> (case res of
            Inl e \<Rightarrow> True
          | Inr t' \<Rightarrow> freshest t evs = t' \<and> \<not> (t' = None \<and> t \<noteq> None)
                        \<and> length (attempts evs) = length rs))"

section \<open>Microsoft OAuth (services/microsoft.js)\<close>

subsection \<open>The PKCE state store\<close>

text \<open>
  \<open>pkceStateStore\<close> is a \<open>Map\<close> from state to an entry; the clock reading of each call
  is passed in.
\<close>

record pkce_entry =
  codeVerifier :: string
  expiresAt :: int

type_synonym pkce_store = "string \<rightharpoonup> pkce_entry"

definition PKCE_STATE_TTL_MS :: int where
  "PKCE_STATE_TTL_MS = 10 * 60 * 1000"

definition pruneExpiredPkceStates :: "int \<Rightarrow> pkce_store \<Rightarrow> pkce_store" where
  "pruneExpiredPkceStates now m =
     (\<lambda>state. case m state of
                 None \<Rightarrow> None
               | Some entry \<Rightarrow> if expiresAt entry \<le> now then None else Some entry)"

definition savePkceState :: "int \<Rightarrow> string \<Rightarrow> string \<Rightarrow> pkce_store \<Rightarrow> pkce_store" where
  "savePkceState now state verifier m =
     (pruneExpiredPkceStates now m)
       (state \<mapsto> \<lparr>codeVerifier = verifier, expiresAt = now + PKCE_STATE_TTL_MS\<rparr>)"

definition consumePkceState :: "int \<Rightarrow> string \<Rightarrow> pkce_store \<Rightarrow> string option \<times> pkce_store" where
  "consumePkceState now state m =
     (let m1 = pruneExpiredPkceStates now m; key = trim state in
      if key = [] then (None, m1)
      else
        let entry = m1 key; m2 = m1(key := None) in
        case entry of
          None \<Rightarrow> (None, m2)
        | Some e \<Rightarrow>
            if expiresAt e \<le> now then (None, m2)
            else (if trim (codeVerifier e) = [] then None else Some (trim (codeVerifier e)), m2))"

text \<open>
  \<open>exchangeCodeForUser\<close>: the token request and the profile request that follow the
  state check are one function \<open>upstream\<close> of the code and the verifier, answering with an
  error message or the user.
\<close>

datatype exchange_error = SessionExpired | Upstream string

definition exchangeCodeForUser ::
  "(string \<Rightarrow> string \<Rightarrow> string + 'u) \<Rightarrow> int \<Rightarrow> string \<Rightarrow> string \<Rightarrow> pkce_store
     \<Rightarrow> (exchange_error + 'u) \<times> pkce_store" where
  "exchangeCodeForUser upstream now code state m =
     (case consumePkceState now state m of
        (None, m') \<Rightarrow> (Inl SessionExpired, m')
      | (Some verifier, m') \<Rightarrow>
          (case upstream (trim code) verifier of
             Inl msg \<Rightarrow> (Inl (Upstream msg), m')
           | Inr user \<Rightarrow> (Inr user, m')))"

text \<open>
  A history of the store: saves and lookups, each at its clock reading. \<open>pkce_run\<close>
  returns what the lookups of one state returned, in order.
\<close>

datatype pkce_op = SaveState string string | ConsumeState string

fun pkce_run :: "string \<Rightarrow> (int \<times> pkce_op) list \<Rightarrow> pkce_store \<Rightarrow> string option list" where
  "pkce_run k [] m = []"
| "pkce_run k ((now, SaveState state verifier) # ops) m =
     pkce_run k ops (savePkceState now state verifier m)"
| "pkce_run k ((now, ConsumeState state) # ops) m =
     (let res = consumePkceState now state m in
      if trim state = k then fst res # pkce_run k ops (snd res) else pkce_run k ops (snd res))"

fun saves_state :: "string \<Rightarrow> int \<times> pkce_op \<Rightarrow> bool" where
  "saves_state k (now, SaveState state verifier) = (state = k)"
| "saves_state k (now, ConsumeState state) = False"

subsection \<open>Sending through Microsoft Graph\<close>

text \<open>
  A token set as the code reads it: a field is absent (\<open>None\<close>) or present; a present
  empty string and a present zero are falsy, as an absent field is.
\<close>

record ms_tokens =
  access_token :: "string option"
  refresh_token :: "string option"
  expires_in :: "int option"
  expires_at :: "int option"

fun truthy :: "string option \<Rightarrow> bool" where
  "truthy None = False"
| "truthy (Some s) = (s \<noteq> [])"

fun or_num :: "int option \<Rightarrow> int \<Rightarrow> int" where
  "or_num None d = d"
| "or_num (Some n) d = (if n = 0 then d else n)"

fun or_str :: "string option \<Rightarrow> string \<Rightarrow> string" where
  "or_str None d = d"
| "or_str (Some s) d = (if s = [] then d else s)"

definition willExpireSoon :: "int \<Rightarrow> ms_tokens \<Rightarrow> bool" where
  "willExpireSoon now tokens =
     (let expiresAt = or_num (expires_at tokens) 0 in
      if expiresAt = 0 then False else now + 60 * 1000 \<ge> expiresAt)"

fun spread :: "'a option \<Rightarrow> 'a option \<Rightarrow> 'a option" where
  "spread fallback (Some v) = Some v"
| "spread fallback None = fallback"

definition normalizeTokenPayload :: "int \<Rightarrow> ms_tokens \<Rightarrow> ms_tokens \<Rightarrow> ms_tokens" where
  "normalizeTokenPayload now payload fallback =
     (let expiresIn = or_num (expires_in payload) (or_num (expires_in fallback) 0);
          expiresAt = (if expiresIn > 0 then Some (now + expiresIn * 1000)
                       else (let e = or_num (expires_at payload) (or_num (expires_at fallback) 0)
                             in if e = 0 then None else Some e))
      in \<lparr>access_token = spread (access_token fallback) (access_token payload),
          refresh_token = spread (refresh_token fallback) (refresh_token payload),
          expires_in = spread (expires_in fallback) (expires_in payload),
          expires_at = expiresAt\<rparr>)"

text \<open>
  The two requests to Microsoft are functions of a world: the token request of
  \<open>requestMicrosoftToken\<close> with the refresh grant, and the \<open>sendMail\<close> request of
  \<open>sendMailWithToken\<close>. Each answers with an error message or a result. The state
  threaded through a send is the world and the list of the requests made so far.
\<close>

record 'w graph =
  graph_now :: "'w \<Rightarrow> int"
  requestMicrosoftToken :: "'w \<Rightarrow> string \<Rightarrow> (string + ms_tokens) \<times> 'w"
  sendMailWithToken :: "'w \<Rightarrow> string option \<Rightarrow> string \<Rightarrow> (string + unit) \<times> 'w"

datatype ms_event = TokenRequest string | SendMail "string option"

definition refreshMicrosoftTokens ::
  "'w graph \<Rightarrow> ms_tokens \<Rightarrow> 'w \<times> ms_event list \<Rightarrow> (string + ms_tokens) \<times> 'w \<times> ms_event list" where
  "refreshMicrosoftTokens G tokens st =
     (let refreshToken = trim (or_str (refresh_token tokens) []) in
      if refreshToken = []
      then (Inl ''Microsoft account is missing refresh token. Reconnect the account.'', st)
      else
        case requestMicrosoftToken G (fst st) refreshToken of
          (Inl msg, w) \<Rightarrow> (Inl msg, w, snd st @ [TokenRequest refreshToken])
        | (Inr tokenPayload, w) \<Rightarrow>
            (let normalized = normalizeTokenPayload (graph_now G w) tokenPayload tokens
             in (Inr (if truthy (refresh_token normalized) then normalized
                      else normalized\<lparr>refresh_token := Some refreshToken\<rparr>),
                 w, snd st @ [TokenRequest refreshToken])))"

text \<open>
  The token set a refresh returns when the token request is answered with \<open>tokenPayload\<close>
  at the clock reading \<open>now\<close>: the normalized payload, with the refresh token that was
  sent when the payload brings none.
\<close>

definition refreshed_tokens :: "int \<Rightarrow> ms_tokens \<Rightarrow> ms_tokens \<Rightarrow> ms_tokens" where
  "refreshed_tokens now tokenPayload tokens =
     (let normalized = normalizeTokenPayload now tokenPayload tokens
      in if truthy (refresh_token normalized) then normalized
         else normalized\<lparr>refresh_token := Some (trim (or_str (refresh_token tokens) []))\<rparr>)"

definition looksLikeTokenIssue :: "string \<Rightarrow> bool" where
  "looksLikeTokenIssue msg =
     (let raw = toLowerCase msg in
      str_includes raw ''invalidauthenticationtoken'' \<or> str_includes raw ''token'' \<or>
      str_includes raw ''unauthorized'' \<or> str_includes raw ''access denied'')"

definition send_mail ::
  "'w graph \<Rightarrow> string \<Rightarrow> ms_tokens \<Rightarrow> 'w \<times> ms_event list \<Rightarrow> (string + unit) \<times> 'w \<times> ms_event list" where
  "send_mail G toEmail activeTokens st =
     (case sendMailWithToken G (fst st) (access_token activeTokens) toEmail of
        (res, w) \<Rightarrow> (res, w, snd st @ [SendMail (access_token activeTokens)]))"

text \<open>The \<open>try\<close> and \<open>catch\<close> of \<open>sendMicrosoftEmail\<close>: the send, and the one refresh and retry.\<close>

definition send_with_retry ::
  "'w graph \<Rightarrow> string \<Rightarrow> ms_tokens \<Rightarrow> 'w \<times> ms_event list
     \<Rightarrow> (string + string option \<times> ms_tokens) \<times> 'w \<times> ms_event list" where
  "send_with_retry G toEmail activeTokens st1 =
     (case send_mail G toEmail activeTokens st1 of
        (Inr u, st2) \<Rightarrow> (Inr (None, activeTokens), st2)
      | (Inl msg, st2) \<Rightarrow>
          if \<not> looksLikeTokenIssue msg \<or> \<not> truthy (refresh_token activeTokens)
          then (Inl msg, st2)
          else
            (case refreshMicrosoftTokens G activeTokens st2 of
               (Inl e, st3) \<Rightarrow> (Inl e, st3)
             | (Inr refreshed, st3) \<Rightarrow>
                 (case send_mail G toEmail refreshed st3 of
                    (Inr u, st4) \<Rightarrow> (Inr (None, refreshed), st4)
                  | (Inl msg2, st4) \<Rightarrow> (Inl msg2, st4))))"

definition sendMicrosoftEmail ::
  "'w graph \<Rightarrow> string \<Rightarrow> ms_tokens \<Rightarrow> 'w \<times> ms_event list
     \<Rightarrow> (string + string option \<times> ms_tokens) \<times> 'w \<times> ms_event list" where
  "sendMicrosoftEmail G toEmail tokens st =
     (case (if \<not> truthy (access_token tokens) \<or> willExpireSoon (graph_now G (fst st)) tokens
            then refreshMicrosoftTokens G tokens st else (Inr tokens, st)) of
        (Inl e, st1) \<Rightarrow> (Inl e, st1)
      | (Inr activeTokens, st1) \<Rightarrow> send_with_retry G toEmail activeTokens st1)"

fun is_refresh :: "ms_event \<Rightarrow> bool" where
  "is_refresh (TokenRequest r) = True"
| "is_refresh (SendMail a) = False"

fun is_send :: "ms_event \<Rightarrow> bool" where
  "is_send (SendMail a) = True"
| "is_send (TokenRequest r) = False"

section \<open>SMTP transmission (services/smtp.js)\<close>

text \<open>
  The message handed to \<open>dotStuff\<close> is a JavaScript string, a sequence of 16-bit code
  units; \<open>js\<close> reads a HOL string as one. The line terminators of the regular expression
  engine are LF, CR, U+2028 and U+2029.
\<close>

type_synonym jsstring = "16 word list"

definition CR :: "16 word" where "CR = 13"
definition LF :: "16 word" where "LF = 10"
definition DOT :: "16 word" where "DOT = 46"
definition LS :: "16 word" where "LS = 8232"
definition PS :: "16 word" where "PS = 8233"

definition js :: "string \<Rightarrow> jsstring" where
  "js s = map (\<lambda>c. of_nat (of_char c)) s"

definition is_line_terminator :: "16 word \<Rightarrow> bool" where
  "is_line_terminator c = (c = LF \<or> c = CR \<or> c = LS \<or> c = PS)"

text \<open>\<open>replace(/\r?\n/g, '\r\n')\<close>: every LF, with the CR before it if there is one, becomes CR LF.\<close>

fun normalize_newlines :: "jsstring \<Rightarrow> jsstring" where
  "normalize_newlines [] = []"
| "normalize_newlines [x] = (if x = LF then [CR, LF] else [x])"
| "normalize_newlines (x # y # zs) =
     (if x = CR \<and> y = LF then CR # LF # normalize_newlines zs
      else if x = LF then CR # LF # normalize_newlines (y # zs)
      else x # normalize_newlines (y # zs))"

text \<open>
  \<open>replace(/^\./gm, '..')\<close>: with the \<open>m\<close> flag \<open>^\<close> matches at the start of the string
  and after every line terminator; the flag \<open>b\<close> says that the position is one of these.
\<close>

fun stuff_dots :: "bool \<Rightarrow> jsstring \<Rightarrow> jsstring" where
  "stuff_dots b [] = []"
| "stuff_dots b (x # xs) =
     (if b \<and> x = DOT then DOT # DOT # stuff_dots (is_line_terminator x) xs
      else x # stuff_dots (is_line_terminator x) xs)"

definition dotStuff :: "jsstring \<Rightarrow> jsstring" where
  "dotStuff v = stuff_dots True (normalize_newlines v)"

text \<open>What \<open>sendSmtpEmailByProtocol\<close> writes after \<open>DATA\<close>.\<close>

definition data_payload :: "jsstring \<Rightarrow> jsstring" where
  "data_payload rawMessage = dotStuff rawMessage @ [CR, LF, DOT, CR, LF]"

subsection \<open>The receiving side\<close>

text \<open>
  The reader of the claim, not code of the repository: it splits the payload into lines at
  CR LF, takes the lines before the first line that is a lone dot, drops one dot from every
  line that starts with two, and joins the lines with CR LF again. Without a lone-dot line
  the message has not ended.
\<close>

fun cons_first :: "'a \<Rightarrow> 'a list list \<Rightarrow> 'a list list" where
  "cons_first x [] = [[x]]"
| "cons_first x (l # ls) = (x # l) # ls"

fun split_crlf :: "jsstring \<Rightarrow> jsstring list" where
  "split_crlf [] = [[]]"
| "split_crlf [x] = [[x]]"
| "split_crlf (x # y # zs) =
     (if x = CR \<and> y = LF then [] # split_crlf zs else cons_first x (split_crlf (y # zs)))"

fun join_crlf :: "jsstring list \<Rightarrow> jsstring" where
  "join_crlf [] = []"
| "join_crlf [l] = l"
| "join_crlf (l # m # ls) = l @ CR # LF # join_crlf (m # ls)"

fun unstuff_line :: "jsstring \<Rightarrow> jsstring" where
  "unstuff_line (a # b # rest) = (if a = DOT \<and> b = DOT then b # rest else a # b # rest)"
| "unstuff_line l = l"

definition smtp_receive :: "jsstring \<Rightarrow> jsstring option" where
  "smtp_receive payload =
     (let ls = split_crlf payload in
      if [DOT] \<in> set ls
      then Some (join_crlf (map unstuff_line (takeWhile (\<lambda>l. l \<noteq> [DOT]) ls)))
      else None)"

text \<open>The stuffing, line by line: a line that begins with a dot gets one more.\<close>

fun stuff_line :: "jsstring \<Rightarrow> jsstring" where
  "stuff_line [] = []"
| "stuff_line (a # rest) = (if a = DOT then DOT # a # rest else a # rest)"

text \<open>
  Messages whose only line terminators are LF and CR LF: every CR is followed by LF, and
  U+2028 and U+2029 do not occur. In \<open>crlf_only\<close> every LF follows a CR as well.
\<close>

fun no_bare_cr :: "jsstring \<Rightarrow> bool" where
  "no_bare_cr [] = True"
| "no_bare_cr [x] = (x \<noteq> CR \<and> x \<noteq> LS \<and> x \<noteq> PS)"
| "no_bare_cr (x # y # zs) =
     (if x = CR \<and> y = LF then no_bare_cr zs
      else x \<noteq> CR \<and> x \<noteq> LS \<and> x \<noteq> PS \<and> no_bare_cr (y # zs))"

fun crlf_only :: "jsstring \<Rightarrow> bool" where
  "crlf_only [] = True"
| "crlf_only [x] = (x \<noteq> CR \<and> x \<noteq> LF \<and> x \<noteq> LS \<and> x \<noteq> PS)"
| "crlf_only (x # y # zs) =
     (if x = CR \<and> y = LF then crlf_only zs
      else x \<noteq> CR \<and> x \<noteq> LF \<and> x \<noteq> LS \<and> x \<noteq> PS \<and> crlf_only (y # zs))"

fun stuff_lines :: "bool \<Rightarrow> jsstring list \<Rightarrow> jsstring list" where
  "stuff_lines b [] = []"
| "stuff_lines b (l # ls) = (if b then stuff_line l else l) # map stuff_line ls"

section \<open>Examples\<close>

text \<open>A recipient as \<open>createCampaign\<close> inserts it.\<close>

definition fresh_recipient :: "nat \<Rightarrow> nat \<Rightarrow> string \<Rightarrow> string \<Rightarrow> recipient" where
  "fresh_recipient i c e tok =
     \<lparr>rid = i, campaign_id = c, email = e, status = PENDING, tracking_token = tok,
      message_id = None, error = None, sent_at = None, opened_at = None, open_count = 0,
      updated_at = 0\<rparr>"

definition sent_recipient :: recipient where
  "sent_recipient = (fresh_recipient 1 1 ''a@b.c'' ''t0k'')\<lparr>status := SENT, sent_at := Some 1000\<rparr>"

definition three_hits :: "(open_options \<times> int) list" where
  "three_hits = [(\<lparr>minSecondsAfterSent = 5, ignoreBeforeSent = True\<rparr>, 2000),
                 (\<lparr>minSecondsAfterSent = 5, ignoreBeforeSent = True\<rparr>, 9000),
                 (\<lparr>minSecondsAfterSent = 5, ignoreBeforeSent = True\<rparr>, 12000)]"

text \<open>Two hits of which the second looks the recipient up before the first has saved.\<close>

definition two_overlapping :: "open_action list" where
  "two_overlapping = [Call \<lparr>minSecondsAfterSent = 5, ignoreBeforeSent = True\<rparr> 9000,
                      Call \<lparr>minSecondsAfterSent = 5, ignoreBeforeSent = True\<rparr> 9500,
                      Complete 0, Complete 0]"

definition plain_request :: pixel_request where
  "plain_request = \<lparr>req_token = ''t0k'', force_track = [], automated = False, automated_reason = []\<rparr>"

definition forced_request :: pixel_request where
  "forced_request = \<lparr>req_token = ''t0k'', force_track = ''1'', automated = True,
                      automated_reason = ''head_request''\<rparr>"

definition early_recipient :: recipient where
  "early_recipient = (fresh_recipient 1 1 ''a@b.c'' ''t0k'')\<lparr>status := SENT, sent_at := Some 10000\<rparr>"

text \<open>
  A run to try the runner on: the world counts the provider calls, the clock follows it,
  a token set is a number, and every successful Microsoft or Gmail send returns a new
  one; sends to \<open>bad@x.io\<close> are refused.
\<close>

definition example_env :: "(nat, nat) env" where
  "example_env =
     \<lparr>clock = (\<lambda>w. 1000 * int w),
      db_up = (\<lambda>w. True),
      db_answer = (\<lambda>w. (None, w)),
      smtp_send = (\<lambda>w c r a. (Inr None, Suc w)),
      microsoft_send = (\<lambda>w c r t.
         (if email r = ''bad@x.io'' then Inl ''Mailbox unavailable'' else Inr (None, Suc w), Suc w)),
      gmail_send = (\<lambda>w c r a t.
         (if email r = ''bad@x.io'' then Inl ''Mailbox unavailable'' else Inr (Some ''m'', Suc w), Suc w))\<rparr>"

text \<open>The same surroundings with a store that rejects every call made after the second send.\<close>

definition flaky_env :: "(nat, nat) env" where
  "flaky_env = example_env\<lparr>db_answer := (\<lambda>w. (if w = 2 then Some ''store unreachable'' else None, w))\<rparr>"

definition example_campaign :: campaign where
  "example_campaign =
     \<lparr>cid = 1, subject = ''Hello'', body_text = ''Hi'', cstatus = ''QUEUED'', scheduled_at = None,
      account_email = ''s@x.io'', account_type = ''microsoft'', created_at = 0\<rparr>"

definition example_sys :: "(nat, nat) sys" where
  "example_sys =
     \<lparr>recipients = [fresh_recipient 1 1 ''a@x.io'' ''t1'', fresh_recipient 2 1 ''bad@x.io'' ''t2'',
                    fresh_recipient 3 1 ''c@x.io'' ''t3''],
      campaigns = [example_campaign],
      accounts = \<lparr>google_accounts = [], microsoft_accounts = [(''s@x.io'', 0)], smtp_accounts = []\<rparr>,
      world = 0, trace = [], isProcessing = False, polls = []\<rparr>"

text \<open>
  A world to try a send on: it counts the requests made. The access token \<open>stale\<close> is
  refused by Graph as an invalid authentication token, every other one is accepted; the
  token endpoint accepts the refresh token \<open>r1\<close> and answers with a new access token,
  and refuses every other one.
\<close>

definition example_payload :: ms_tokens where
  "example_payload =
     \<lparr>access_token = Some ''new'', refresh_token = None, expires_in = Some 3600, expires_at = None\<rparr>"

definition example_graph :: "nat graph" where
  "example_graph =
     \<lparr>graph_now = (\<lambda>w. 1000 * int w),
      requestMicrosoftToken = (\<lambda>w r. (if r = ''r1'' then Inr example_payload else Inl ''invalid_grant'', Suc w)),
      sendMailWithToken = (\<lambda>w a toEmail.
         (if a = Some ''stale'' then Inl ''InvalidAuthenticationToken: Access token has expired.''
          else Inr (), Suc w))\<rparr>"

definition stale_tokens :: "string \<Rightarrow> ms_tokens" where
  "stale_tokens r =
     \<lparr>access_token = Some ''stale'', refresh_token = Some r, expires_in = None, expires_at = None\<rparr>"

text \<open>A token set whose access token is about to expire at the start of the example world.\<close>

definition expiring_tokens :: ms_tokens where
  "expiring_tokens =
     \<lparr>access_token = Some ''old'', refresh_token = Some ''r1'', expires_in = None,
      expires_at = Some 30000\<rparr>"

section \<open>Properties\<close>

subsection \<open>Strings and the collection\<close>

lemma trim_Nil: "trim [] = []"
  by (simp add: trim_def)

lemma trim_idem: "trim (trim s) = trim s"
proof -
  define u where "u = dropWhile is_js_space s"
  define v where "v = dropWhile is_js_space (rev u)"
  have t: "trim s = rev v" by (simp add: trim_def u_def v_def)
  have hv: "v = [] \<or> \<not> is_js_space (hd v)"
    unfolding v_def by (metis hd_dropWhile)
  have hu: "u = [] \<or> \<not> is_js_space (hd u)"
    unfolding u_def by (metis hd_dropWhile)
  have suf: "\<exists>p. rev u = p @ v"
    unfolding v_def by (metis takeWhile_dropWhile_id)
  have lv: "v = [] \<or> \<not> is_js_space (last v)"
  proof (cases "v = []")
    case False
    from suf obtain p where p: "rev u = p @ v" by blast
    with False have "last v = last (rev u)" by simp
    moreover have "u \<noteq> []" using p False by auto
    ultimately show ?thesis using hu by (simp add: last_rev)
  qed simp
  have "dropWhile is_js_space (rev v) = rev v"
    using lv by (cases "v = []") (simp_all add: dropWhile_eq_self_iff hd_rev)
  moreover have "dropWhile is_js_space v = v"
    using hv by (simp add: dropWhile_eq_self_iff)
  ultimately have "trim (rev v) = rev v" by (simp add: trim_def)
  then show ?thesis by (simp add: t)
qed

lemma findOne_save:
  "findOne (\<lambda>x. tracking_token x = tok) rs = Some r \<Longrightarrow> rid r' = rid r \<Longrightarrow> tracking_token r' = tok
   \<Longrightarrow> findOne (\<lambda>x. tracking_token x = tok) (save r' rs) = Some r'"
  unfolding findOne_def save_def
proof (induction rs)
  case Nil then show ?case by simp
next
  case (Cons x xs)
  show ?case
  proof (cases "rid x = rid r'")
    case True then show ?thesis using Cons.prems by simp
  next
    case False
    then have "x \<noteq> r" using Cons.prems by auto
    then show ?thesis using Cons False by (auto split: if_splits)
  qed
qed


subsection \<open>Open tracking\<close>

lemma markOpenByToken_found:
  assumes found: "findOne (\<lambda>x. tracking_token x = trim tok) rs = Some r"
      and tok: "trim tok \<noteq> []"
  shows "markOpenByToken tok opts now rs =
     (if ignoreBeforeSent opts \<and> sent_at r = None
      then (Some (Ignored recipient_not_sent_yet (rid r)), rs)
      else if too_soon opts now r then (Some (Ignored too_soon_after_send (rid r)), rs)
      else (Some (Opened (rid r) (status (opened_once now r)) (open_count r + 1)
                    (opened_at (opened_once now r)) (open_count r = 0)),
            save (opened_once now r) rs))"
  unfolding markOpenByToken_def too_soon_def opened_once_def Let_def
  using found tok by simp

lemma markOpenByToken_step:
  assumes found: "findOne (\<lambda>x. tracking_token x = trim tok) rs = Some r"
      and call: "markOpenByToken tok opts now rs = (e, rs')"
  shows "(accepted e \<and> findOne (\<lambda>x. tracking_token x = trim tok) rs' = Some (opened_once now r))
         \<or> (\<not> accepted e \<and> rs' = rs)"
proof (cases "trim tok = []")
  case True
  then show ?thesis using call by (simp add: markOpenByToken_def)
next
  case False
  have tk: "tracking_token r = trim tok"
    using found by (auto simp: findOne_def dest: find_Some_iff[THEN iffD1])
  have sv: "findOne (\<lambda>x. tracking_token x = trim tok) (save (opened_once now r) rs) = Some (opened_once now r)"
    by (rule findOne_save[OF found]) (simp_all add: opened_once_def tk)
  show ?thesis
    using call sv unfolding markOpenByToken_found[OF found False]
    by (auto split: if_splits)
qed

lemma first_accepted_time_Cons:
  "first_accepted_time (c # cs) (e # es) =
     (if accepted e then Some (snd c) else first_accepted_time cs es)"
  by (simp add: first_accepted_time_def)

lemma opened_once_fields:
  "rid (opened_once now r) = rid r"
  "sent_at (opened_once now r) = sent_at r"
  "open_count (opened_once now r) = open_count r + 1"
  "opened_at (opened_once now r) = (case opened_at r of None \<Rightarrow> Some now | Some t \<Rightarrow> Some t)"
  "status (opened_once now r) = (if status r = FAILED then FAILED else OPENED)"
  by (simp_all add: opened_once_def)

lemma open_calls_general:
  assumes "findOne (\<lambda>x. tracking_token x = trim tok) rs = Some r"
      and "open_calls tok calls rs = (es, rs')"
  shows "\<exists>r'. findOne (\<lambda>x. tracking_token x = trim tok) rs' = Some r'
           \<and> rid r' = rid r \<and> sent_at r' = sent_at r
           \<and> open_count r' = open_count r + length (filter accepted es)
           \<and> opened_at r' = (case opened_at r of Some t \<Rightarrow> Some t | None \<Rightarrow> first_accepted_time calls es)
           \<and> status r' = (if filter accepted es = [] then status r
                           else if status r = FAILED then FAILED else OPENED)"
  using assms
proof (induction calls arbitrary: rs r es rs')
  case Nil
  then show ?case by (simp add: first_accepted_time_def split: option.splits)
next
  case (Cons c cs)
  obtain e rs1 where c1: "markOpenByToken tok (fst c) (snd c) rs = (e, rs1)"
    by (cases "markOpenByToken tok (fst c) (snd c) rs")
  obtain es1 rs2 where c2: "open_calls tok cs rs1 = (es1, rs2)"
    by (cases "open_calls tok cs rs1")
  have es: "es = e # es1" and rs': "rs' = rs2"
    using Cons.prems(2) c1 c2 by simp_all
  from markOpenByToken_step[OF Cons.prems(1) c1]
  show ?case
  proof
    assume a: "accepted e \<and> findOne (\<lambda>x. tracking_token x = trim tok) rs1 = Some (opened_once (snd c) r)"
    from Cons.IH[OF conjunct2[OF a] c2]
    obtain r' where r': "findOne (\<lambda>x. tracking_token x = trim tok) rs2 = Some r'"
      "rid r' = rid r" "sent_at r' = sent_at r"
      "open_count r' = open_count r + 1 + length (filter accepted es1)"
      "opened_at r' = (case opened_at r of None \<Rightarrow> Some (snd c) | Some t \<Rightarrow> Some t)"
      "status r' = (if status r = FAILED then FAILED else OPENED)"
      by (auto simp: opened_once_fields split: option.splits if_splits)
    show ?thesis
      using r' a unfolding es rs' by (intro exI[of _ r']) (simp add: first_accepted_time_Cons split: option.splits)
  next
    assume a: "\<not> accepted e \<and> rs1 = rs"
    then have f: "findOne (\<lambda>x. tracking_token x = trim tok) rs1 = Some r"
      using Cons.prems(1) by simp
    from Cons.IH[OF f c2] obtain r' where
      "findOne (\<lambda>x. tracking_token x = trim tok) rs2 = Some r'
           \<and> rid r' = rid r \<and> sent_at r' = sent_at r
           \<and> open_count r' = open_count r + length (filter accepted es1)
           \<and> opened_at r' = (case opened_at r of Some t \<Rightarrow> Some t | None \<Rightarrow> first_accepted_time cs es1)
           \<and> status r' = (if filter accepted es1 = [] then status r
                           else if status r = FAILED then FAILED else OPENED)" by blast
    then show ?thesis
      using a unfolding es rs' by (intro exI[of _ r']) (simp add: first_accepted_time_Cons split: option.splits)
  qed
qed

lemma first_accepted_time_Some:
  "length es = length cs \<Longrightarrow> filter accepted es \<noteq> [] \<Longrightarrow> \<exists>t. first_accepted_time cs es = Some t"
proof (induction cs arbitrary: es)
  case Nil then show ?case by simp
next
  case (Cons c cs)
  then obtain e es1 where es: "es = e # es1" by (cases es) auto
  show ?case using Cons unfolding es by (auto simp: first_accepted_time_Cons)
qed

lemma open_calls_length:
  "open_calls tok calls rs = (es, rs') \<Longrightarrow> length es = length calls"
  by (induction calls arbitrary: rs es rs') (auto split: prod.splits)

text \<open>A call that runs alone is its two stretches, one after the other.\<close>

lemma markOpenByToken_alone:
  "markOpenByToken tok opts now rs
     = (case markOpenByToken_load tok opts now rs of
          Returned e \<Rightarrow> (e, rs)
        | Saving r' e \<Rightarrow> (Some e, markOpenByToken_save r' rs))"
proof (cases "trim tok = []")
  case True
  then show ?thesis by (simp add: markOpenByToken_def markOpenByToken_load_def)
next
  case False
  show ?thesis
  proof (cases "findOne (\<lambda>r. tracking_token r = trim tok) rs")
    case None
    then show ?thesis using False by (simp add: markOpenByToken_def markOpenByToken_load_def)
  next
    case (Some r)
    then show ?thesis using False
      by (simp add: markOpenByToken_def markOpenByToken_load_def markOpenByToken_save_def Let_def)
  qed
qed

lemma one_call:
  assumes "saving st = []"
  shows "fold (open_step tok) [Call opts now, Complete 0] st
           = st\<lparr>docs := snd (markOpenByToken tok opts now (docs st)),
                 returned := returned st @ [fst (markOpenByToken tok opts now (docs st))]\<rparr>"
  using assms
  by (cases "markOpenByToken_load tok opts now (docs st)") (simp_all add: markOpenByToken_alone)

lemma one_at_a_time_run:
  "saving st = [] \<Longrightarrow>
   fold (open_step tok) (one_at_a_time calls) st
     = st\<lparr>docs := snd (open_calls tok calls (docs st)),
           returned := returned st @ fst (open_calls tok calls (docs st))\<rparr>"
proof (induction calls arbitrary: st)
  case Nil
  show ?case by (simp add: one_at_a_time_def)
next
  case (Cons c cs)
  let ?st1 = "st\<lparr>docs := snd (markOpenByToken tok (fst c) (snd c) (docs st)),
                   returned := returned st @ [fst (markOpenByToken tok (fst c) (snd c) (docs st))]\<rparr>"
  have s1: "saving ?st1 = []" using Cons.prems by simp
  have "fold (open_step tok) (one_at_a_time (c # cs)) st
          = fold (open_step tok) (one_at_a_time cs) (fold (open_step tok) [Call (fst c) (snd c), Complete 0] st)"
    by (simp add: one_at_a_time_def)
  also have "\<dots> = fold (open_step tok) (one_at_a_time cs) ?st1"
    by (simp only: one_call[OF Cons.prems])
  also have "\<dots> = ?st1\<lparr>docs := snd (open_calls tok cs (docs ?st1)),
                          returned := returned ?st1 @ fst (open_calls tok cs (docs ?st1))\<rparr>"
    by (rule Cons.IH[OF s1])
  finally show ?case
    by (simp add: split_beta)
qed

lemma open_run_one_at_a_time:
  "open_run tok (one_at_a_time calls) rs
     = \<lparr>docs = snd (open_calls tok calls rs), saving = [], returned = fst (open_calls tok calls rs)\<rparr>"
  by (simp add: open_run_def one_at_a_time_run)

text \<open>
  C3, for calls made one at a time. On a recipient with \<open>sent_at\<close> set, a history of
  calls of \<open>markOpenByToken\<close> on its token, each returned before the next starts, of
  which \<open>N \<ge> 1\<close> are accepted, adds \<open>N\<close> to \<open>open_count\<close> (so leaves
  \<open>open_count = N\<close> on a recipient not opened before), sets \<open>opened_at\<close> to the time of
  the first accepted call unless it was set already, and never changes it again, and leaves
  the status \<open>OPENED\<close>, or \<open>FAILED\<close> when it was \<open>FAILED\<close>.
\<close>

theorem C3_accepted_opens:
  assumes found: "findOne (\<lambda>x. tracking_token x = trim tok) rs = Some r"
      and sent: "sent_at r = Some s"
      and run: "open_run tok (one_at_a_time calls) rs = st"
      and N: "N = length (filter accepted (returned st))"
      and pos: "N \<ge> 1"
  shows "saving st = [] \<and> length (returned st) = length calls
       \<and> (\<exists>r' t. findOne (\<lambda>x. tracking_token x = trim tok) (docs st) = Some r'
             \<and> open_count r' = open_count r + N
             \<and> (open_count r = 0 \<longrightarrow> open_count r' = N)
             \<and> first_accepted_time calls (returned st) = Some t
             \<and> opened_at r' = (case opened_at r of None \<Rightarrow> Some t | Some t0 \<Rightarrow> Some t0)
             \<and> status r' = (if status r = FAILED then FAILED else OPENED))"
proof -
  obtain es rs' where oc: "open_calls tok calls rs = (es, rs')"
    by (cases "open_calls tok calls rs")
  have st: "docs st = rs'" "saving st = []" "returned st = es"
    using run[symmetric] by (simp_all add: open_run_one_at_a_time oc)
  have ne: "filter accepted es \<noteq> []" using N pos st by auto
  from first_accepted_time_Some[OF open_calls_length[OF oc] ne]
  obtain t where t: "first_accepted_time calls es = Some t" by blast
  from open_calls_general[OF found oc] obtain r' where
    "findOne (\<lambda>x. tracking_token x = trim tok) rs' = Some r'"
    "open_count r' = open_count r + length (filter accepted es)"
    "opened_at r' = (case opened_at r of Some t \<Rightarrow> Some t | None \<Rightarrow> first_accepted_time calls es)"
    "status r' = (if filter accepted es = [] then status r
                           else if status r = FAILED then FAILED else OPENED)" by blast
  then have "\<exists>r' t. findOne (\<lambda>x. tracking_token x = trim tok) (docs st) = Some r'
             \<and> open_count r' = open_count r + N
             \<and> (open_count r = 0 \<longrightarrow> open_count r' = N)
             \<and> first_accepted_time calls (returned st) = Some t
             \<and> opened_at r' = (case opened_at r of None \<Rightarrow> Some t | Some t0 \<Rightarrow> Some t0)
             \<and> status r' = (if status r = FAILED then FAILED else OPENED)"
    unfolding st
    using t ne N st(3) by (intro exI[of _ r'] exI[of _ t]) (simp split: option.splits)
  then show ?thesis using st(2,3) open_calls_length[OF oc] by simp
qed

lemma t0k: "trim ''t0k'' = ''t0k''" by (simp add: trim_def is_js_space_def)

lemma ex_run: "open_calls ''t0k'' three_hits [sent_recipient] =
   ([Some (Ignored too_soon_after_send 1), Some (Opened 1 OPENED 1 (Some 9000) True),
     Some (Opened 1 OPENED 2 (Some 9000) False)],
    [sent_recipient\<lparr>status := OPENED, opened_at := Some 9000, open_count := 2, updated_at := 12000\<rparr>])"
  by (simp add: three_hits_def sent_recipient_def fresh_recipient_def markOpenByToken_def t0k
        findOne_def save_def Let_def)

theorem C3_witness:
  "\<exists>r'. findOne (\<lambda>x. tracking_token x = ''t0k'')
           (docs (open_run ''t0k'' (one_at_a_time three_hits) [sent_recipient])) = Some r'
        \<and> open_count r' = 2 \<and> opened_at r' = Some 9000 \<and> status r' = OPENED"
proof -
  let ?es = "[Some (Ignored too_soon_after_send 1), Some (Opened 1 OPENED 1 (Some 9000) True),
      Some (Opened 1 OPENED 2 (Some 9000) False)]"
  let ?rs' = "[sent_recipient\<lparr>status := OPENED, opened_at := Some 9000, open_count := 2, updated_at := 12000\<rparr>]"
  let ?st = "\<lparr>docs = ?rs', saving = [], returned = ?es\<rparr>"
  have h1: "findOne (\<lambda>x. tracking_token x = trim ''t0k'') [sent_recipient] = Some sent_recipient"
    by (simp add: t0k findOne_def sent_recipient_def fresh_recipient_def)
  have h2: "sent_at sent_recipient = Some 1000"
    by (simp add: sent_recipient_def)
  have h3: "open_run ''t0k'' (one_at_a_time three_hits) [sent_recipient] = ?st"
    by (simp add: open_run_one_at_a_time ex_run)
  have h4: "(2::nat) = length (filter accepted (returned ?st))" by simp
  have h5: "(2::nat) \<ge> 1" by simp
  have f: "first_accepted_time three_hits ?es = Some 9000"
    by (simp add: first_accepted_time_def three_hits_def)
  from C3_accepted_opens [OF h1 h2 h3 h4 h5] obtain r' t where
    r: "findOne (\<lambda>x. tracking_token x = trim ''t0k'') (docs ?st) = Some r'"
       "open_count r' = open_count sent_recipient + 2"
       "first_accepted_time three_hits (returned ?st) = Some t"
       "opened_at r' = (case opened_at sent_recipient of None \<Rightarrow> Some t | Some t0 \<Rightarrow> Some t0)"
       "status r' = (if status sent_recipient = FAILED then FAILED else OPENED)"
    by blast
  have t: "t = 9000" using r(3) f by simp
  show ?thesis
    unfolding h3
    using r(1,2,4,5) t
    by (intro exI[of _ r']) (simp add: t0k sent_recipient_def fresh_recipient_def)
qed

text \<open>
  The claim as written fails for calls that overlap. Two hits on a sent recipient that has
  not been opened, the second looking the recipient up before the first has saved: both
  are accepted, both saves are carried out, and \<open>open_count\<close> is 1, not 2; and
  \<open>opened_at\<close>, set by the first save, is set again by the second.
\<close>

theorem C3_counterexample:
  "findOne (\<lambda>x. tracking_token x = trim ''t0k'') [sent_recipient] = Some sent_recipient
   \<and> sent_at sent_recipient = Some 1000 \<and> open_count sent_recipient = 0
   \<and> map accepted (returned (open_run ''t0k'' two_overlapping [sent_recipient])) = [True, True]
   \<and> saving (open_run ''t0k'' two_overlapping [sent_recipient]) = []
   \<and> map open_count (docs (open_run ''t0k'' two_overlapping [sent_recipient])) = [1]
   \<and> map opened_at (docs (open_run ''t0k'' (butlast two_overlapping) [sent_recipient])) = [Some 9000]
   \<and> map opened_at (docs (open_run ''t0k'' two_overlapping [sent_recipient])) = [Some 9500]"
  by (simp add: open_run_def two_overlapping_def markOpenByToken_load_def markOpenByToken_save_def
        save_def findOne_def t0k sent_recipient_def fresh_recipient_def Let_def)

text \<open>
  C4. A pixel hit on the tracking token of a recipient whose \<open>sent_at\<close> is null is
  ignored: \<open>markOpenByToken\<close>, called with \<open>ignoreBeforeSent\<close> as the pixel handler
  calls it, answers \<open>recipient_not_sent_yet\<close> and leaves the collection as it was, whatever
  the minimum delay; the handler itself leaves the collection unchanged for every request
  carrying that token.
\<close>

theorem C4_open_before_sent_is_ignored:
  assumes found: "findOne (\<lambda>x. tracking_token x = trim tok) rs = Some r"
      and tok: "trim tok \<noteq> []"
      and unsent: "sent_at r = None"
      and req: "req_token req = tok"
  shows "markOpenByToken tok \<lparr>minSecondsAfterSent = m, ignoreBeforeSent = True\<rparr> now rs
           = (Some (Ignored recipient_not_sent_yet (rid r)), rs)
         \<and> handlePixelHit db env_value req now rs
           = (if db \<and> (forceTrack req \<or> \<not> automated req \<or> trim (automated_reason req) = [])
              then Some (Ignored recipient_not_sent_yet (rid r)) else None, rs)"
proof -
  have m: "\<And>m. markOpenByToken tok \<lparr>minSecondsAfterSent = m, ignoreBeforeSent = True\<rparr> now rs
           = (Some (Ignored recipient_not_sent_yet (rid r)), rs)"
    using found tok unsent by (simp add: markOpenByToken_def Let_def)
  have m': "\<And>m. markOpenByToken (trim tok) \<lparr>minSecondsAfterSent = m, ignoreBeforeSent = True\<rparr> now rs
           = (Some (Ignored recipient_not_sent_yet (rid r)), rs)"
    using found tok unsent by (simp add: markOpenByToken_def Let_def trim_idem)
  show ?thesis
    using m m' tok req by (simp add: handlePixelHit_def processOpenTracking_def trim_Nil)
qed

theorem C4_witness:
  "handlePixelHit True None
     \<lparr>req_token = '' t0k '', force_track = ''1'', automated = False, automated_reason = []\<rparr> 7000
     [fresh_recipient 1 1 ''a@b.c'' ''t0k'']
   = (Some (Ignored recipient_not_sent_yet 1), [fresh_recipient 1 1 ''a@b.c'' ''t0k''])"
proof -
  let ?r = "fresh_recipient 1 1 ''a@b.c'' ''t0k''"
  let ?req = "\<lparr>req_token = '' t0k '', force_track = ''1'', automated = False, automated_reason = []\<rparr>"
  have t: "trim '' t0k '' = ''t0k''" by (simp add: trim_def is_js_space_def)
  have h1: "findOne (\<lambda>x. tracking_token x = trim '' t0k '') [?r] = Some ?r"
    by (simp add: t findOne_def fresh_recipient_def)
  have h2: "trim '' t0k '' \<noteq> []" by (simp add: t)
  have h3: "sent_at ?r = None" by (simp add: fresh_recipient_def)
  have h4: "req_token ?req = '' t0k ''" by simp
  show ?thesis
    using C4_open_before_sent_is_ignored [OF h1 h2 h3 h4, of 0 7000 True None]
    by (simp add: fresh_recipient_def)
qed

lemma min_seconds_range:
  "0 \<le> getTrackingMinSecondsAfterSend v \<and> getTrackingMinSecondsAfterSend v \<le> 300"
proof -
  have "q \<ge> 0 \<Longrightarrow> 0 \<le> math_round q" for q
    by (simp add: math_round_def)
  then show ?thesis
    by (auto simp: getTrackingMinSecondsAfterSend_def split: option.splits jsnum.splits)
qed

lemma math_round_5: "math_round 5 = 5"
  unfolding math_round_def by linarith

lemma elapsed_window:
  "(0 \<le> (d::int) div 1000 \<and> d div 1000 < m) = (0 \<le> d \<and> d < 1000 * m)"
  by linarith

lemma too_soon_iff:
  "sent_at r = Some s \<Longrightarrow> 0 \<le> m \<Longrightarrow>
   too_soon \<lparr>minSecondsAfterSent = m, ignoreBeforeSent = b\<rparr> now r
     = (0 \<le> now - s \<and> now - s < 1000 * m)"
  unfolding too_soon_def Let_def by (auto simp: elapsed_window)

text \<open>
  C5. For a hit on the token of a recipient whose \<open>sent_at\<close> is set: without
  \<open>force_track\<close>, when the time elapsed since \<open>sent_at\<close> is not negative and less than
  the configured minimum delay, the recipient collection is unchanged and the call is
  ignored as \<open>too_soon_after_send\<close> (or not made at all, when the request is filtered
  or the store is down); with \<open>force_track\<close> and the store up the open is counted,
  whatever the delay and the bot verdict. The delay is 5 seconds by default and for a
  negative or non-finite setting, otherwise the setting rounded, at most 300.
\<close>

theorem C5_minimum_delay:
  assumes found: "findOne (\<lambda>x. tracking_token x = trim (req_token req)) rs = Some r"
      and tok: "trim (req_token req) \<noteq> []"
      and sent: "sent_at r = Some s"
  shows "(\<not> forceTrack req \<and> 0 \<le> now - s
            \<and> now - s < 1000 * getTrackingMinSecondsAfterSend env_value
          \<longrightarrow> snd (handlePixelHit db env_value req now rs) = rs
              \<and> (fst (handlePixelHit db env_value req now rs) = None
                 \<or> fst (handlePixelHit db env_value req now rs)
                     = Some (Ignored too_soon_after_send (rid r))))
       \<and> (forceTrack req \<and> db
          \<longrightarrow> handlePixelHit db env_value req now rs
              = (Some (Opened (rid r) (status (opened_once now r)) (open_count r + 1)
                         (opened_at (opened_once now r)) (open_count r = 0)),
                 save (opened_once now r) rs))
       \<and> getTrackingMinSecondsAfterSend None = 5
       \<and> getTrackingMinSecondsAfterSend (Some NaN) = 5
       \<and> getTrackingMinSecondsAfterSend (Some PosInfinity) = 5
       \<and> getTrackingMinSecondsAfterSend (Some NegInfinity) = 5
       \<and> (q < 0 \<longrightarrow> getTrackingMinSecondsAfterSend (Some (Finite q)) = 5)
       \<and> (0 \<le> q \<longrightarrow> getTrackingMinSecondsAfterSend (Some (Finite q)) = min (math_round q) 300)"
proof -
  let ?m = "getTrackingMinSecondsAfterSend env_value"
  have tt: "trim (trim (req_token req)) = trim (req_token req)" by (rule trim_idem)
  have found': "findOne (\<lambda>x. tracking_token x = trim (trim (req_token req))) rs = Some r"
    using found by (simp add: tt)
  have tok': "trim (trim (req_token req)) \<noteq> []" using tok by (simp add: tt)
  note mk = markOpenByToken_found[OF found' tok']
  have m0: "0 \<le> ?m" using min_seconds_range by blast
  have A: "\<not> forceTrack req \<and> 0 \<le> now - s \<and> now - s < 1000 * ?m
          \<longrightarrow> snd (handlePixelHit db env_value req now rs) = rs
              \<and> (fst (handlePixelHit db env_value req now rs) = None
                 \<or> fst (handlePixelHit db env_value req now rs)
                     = Some (Ignored too_soon_after_send (rid r)))"
    using sent tok too_soon_iff[OF sent m0, of True now]
    by (simp add: handlePixelHit_def processOpenTracking_def mk)
  have z: "\<not> too_soon \<lparr>minSecondsAfterSent = 0, ignoreBeforeSent = True\<rparr> now r"
    by (simp add: too_soon_def)
  have B: "forceTrack req \<and> db
          \<longrightarrow> handlePixelHit db env_value req now rs
              = (Some (Opened (rid r) (status (opened_once now r)) (open_count r + 1)
                         (opened_at (opened_once now r)) (open_count r = 0)),
                 save (opened_once now r) rs)"
    using sent tok z
    by (simp add: handlePixelHit_def processOpenTracking_def mk trim_Nil)
  have C: "getTrackingMinSecondsAfterSend None = 5"
       "getTrackingMinSecondsAfterSend (Some NaN) = 5"
       "getTrackingMinSecondsAfterSend (Some PosInfinity) = 5"
       "getTrackingMinSecondsAfterSend (Some NegInfinity) = 5"
       "q < 0 \<longrightarrow> getTrackingMinSecondsAfterSend (Some (Finite q)) = 5"
       "0 \<le> q \<longrightarrow> getTrackingMinSecondsAfterSend (Some (Finite q)) = min (math_round q) 300"
    by (simp_all add: getTrackingMinSecondsAfterSend_def math_round_5)
  show ?thesis using A B C by blast
qed

lemma forceTrack_examples:
  "\<not> forceTrack plain_request" "forceTrack forced_request"
  by (simp_all add: forceTrack_def plain_request_def forced_request_def toLowerCase_def
        lower_char_def trim_def is_js_space_def)

theorem C5_witness:
  "snd (handlePixelHit True None plain_request 3000 [sent_recipient]) = [sent_recipient]
   \<and> handlePixelHit True None forced_request 3000 [sent_recipient]
       = (Some (Opened 1 OPENED 1 (Some 3000) True),
          [sent_recipient\<lparr>status := OPENED, opened_at := Some 3000, open_count := 1,
                           updated_at := 3000\<rparr>])"
proof -
  have h1: "findOne (\<lambda>x. tracking_token x = trim (req_token plain_request)) [sent_recipient]
              = Some sent_recipient"
    by (simp add: plain_request_def t0k findOne_def sent_recipient_def fresh_recipient_def)
  have h2: "trim (req_token plain_request) \<noteq> []" by (simp add: plain_request_def t0k)
  have g1: "findOne (\<lambda>x. tracking_token x = trim (req_token forced_request)) [sent_recipient]
              = Some sent_recipient"
    by (simp add: forced_request_def t0k findOne_def sent_recipient_def fresh_recipient_def)
  have g2: "trim (req_token forced_request) \<noteq> []" by (simp add: forced_request_def t0k)
  have h3: "sent_at sent_recipient = Some 1000" by (simp add: sent_recipient_def)
  have five: "getTrackingMinSecondsAfterSend None = 5"
    using C5_minimum_delay [OF h1 h2 h3] by blast
  have a: "snd (handlePixelHit True None plain_request 3000 [sent_recipient]) = [sent_recipient]"
    using C5_minimum_delay [OF h1 h2 h3, of 3000 None True] forceTrack_examples(1)
    by (simp add: five)
  have b: "handlePixelHit True None forced_request 3000 [sent_recipient]
       = (Some (Opened 1 OPENED 1 (Some 3000) True),
          [sent_recipient\<lparr>status := OPENED, opened_at := Some 3000, open_count := 1,
                           updated_at := 3000\<rparr>])"
    using C5_minimum_delay [OF g1 g2 h3, of 3000 None True] forceTrack_examples(2)
    by (simp add: opened_once_def save_def sent_recipient_def fresh_recipient_def)
  show ?thesis using a b by simp
qed

text \<open>
  The claim as written fails when the clock reads earlier than \<open>sent_at\<close>: the elapsed
  time, \<open>-1\<close> second, is less than the 5 second delay, and the guard
  \<open>elapsedSeconds >= 0\<close> lets the open through.
\<close>

theorem C5_counterexample:
  "sent_at early_recipient = Some 10000
   \<and> findOne (\<lambda>x. tracking_token x = trim (req_token plain_request)) [early_recipient]
       = Some early_recipient
   \<and> \<not> forceTrack plain_request
   \<and> (9000::int) - 10000 < 1000 * getTrackingMinSecondsAfterSend None
   \<and> handlePixelHit True None plain_request 9000 [early_recipient]
       = (Some (Opened 1 OPENED 1 (Some 9000) True),
          [early_recipient\<lparr>status := OPENED, opened_at := Some 9000, open_count := 1,
                            updated_at := 9000\<rparr>])"
proof -
  have five: "getTrackingMinSecondsAfterSend None = 5"
    by (simp add: getTrackingMinSecondsAfterSend_def math_round_5)
  show ?thesis
    using forceTrack_examples(1)
    by (simp add: five handlePixelHit_def processOpenTracking_def markOpenByToken_def
          plain_request_def t0k trim_Nil findOne_def save_def early_recipient_def
          fresh_recipient_def Let_def)
qed

subsection \<open>The runner\<close>

lemma log_fields [simp]:
  "trace (log es s) = trace s @ es"
  "recipients (log es s) = recipients s"
  "campaigns (log es s) = campaigns s"
  "accounts (log es s) = accounts s"
  "world (log es s) = world s"
  "isProcessing (log es s) = isProcessing s"
  "polls (log es s) = polls s"
  by (simp_all add: log_def)

lemma campaign_begin_fields [simp]:
  "trace (campaign_begin c s) = trace s @ [CampaignStatus (cid c) ''SENDING'']"
  "recipients (campaign_begin c s) = recipients s"
  "accounts (campaign_begin c s) = accounts s"
  "world (campaign_begin c s) = world s"
  "isProcessing (campaign_begin c s) = isProcessing s"
  "polls (campaign_begin c s) = polls s"
  "campaigns (campaign_begin c s) = updateCampaignStatus (cid c) ''SENDING'' (campaigns s)"
  by (simp_all add: campaign_begin_def)

lemma fail_one_fields [simp]:
  "trace (fail_one E c k r s) = trace s @ [RecipientMarked (rid r) FAILED]"
  "accounts (fail_one E c k r s) = accounts s"
  "campaigns (fail_one E c k r s) = campaigns s"
  "world (fail_one E c k r s) = world s"
  "isProcessing (fail_one E c k r s) = isProcessing s"
  "polls (fail_one E c k r s) = polls s"
  by (simp_all add: fail_one_def)

lemma mark_sent_fields [simp]:
  "trace (mark_sent E r m s) = trace s @ [RecipientMarked (rid r) SENT]"
  "accounts (mark_sent E r m s) = accounts s"
  "campaigns (mark_sent E r m s) = campaigns s"
  "world (mark_sent E r m s) = world s"
  "isProcessing (mark_sent E r m s) = isProcessing s"
  "polls (mark_sent E r m s) = polls s"
  "recipients (mark_sent E r m s) = markRecipientSent (rid r) m (clock E (world s)) (recipients s)"
  by (simp_all add: mark_sent_def)

lemma mark_failed_fields [simp]:
  "trace (mark_failed E r m s) = trace s @ [RecipientMarked (rid r) FAILED]"
  "accounts (mark_failed E r m s) = accounts s"
  "campaigns (mark_failed E r m s) = campaigns s"
  "world (mark_failed E r m s) = world s"
  "isProcessing (mark_failed E r m s) = isProcessing s"
  "polls (mark_failed E r m s) = polls s"
  "recipients (mark_failed E r m s) =
     markRecipientFailed (rid r) (if m = [] then ''Send failed'' else m) (clock E (world s)) (recipients s)"
  by (simp_all add: mark_failed_def)

lemma campaign_finalize_fields [simp]:
  "trace (campaign_finalize c s) = trace s @
     [CampaignStatus (cid c) (fst (finalizeCampaignStatus (cid c) (recipients s) (campaigns s)))]"
  "recipients (campaign_finalize c s) = recipients s"
  "accounts (campaign_finalize c s) = accounts s"
  "world (campaign_finalize c s) = world s"
  "isProcessing (campaign_finalize c s) = isProcessing s"
  "polls (campaign_finalize c s) = polls s"
  "campaigns (campaign_finalize c s) = snd (finalizeCampaignStatus (cid c) (recipients s) (campaigns s))"
  by (simp_all add: campaign_finalize_def Let_def)

lemma persist_tokens_fields [simp]:
  "recipients (persist_tokens k a t s) = recipients s"
  "campaigns (persist_tokens k a t s) = campaigns s"
  "world (persist_tokens k a t s) = world s"
  "isProcessing (persist_tokens k a t s) = isProcessing s"
  "polls (persist_tokens k a t s) = polls s"
  by (simp_all add: persist_tokens_def split: option.splits)

lemma persist_tokens_trace:
  "trace (persist_tokens k a t s) =
     trace s @ (if k = ''google'' \<or> k = ''microsoft'' then [TokensPersisted k (account_email_of a) t] else [])"
  by (simp add: persist_tokens_def split: option.splits)


text \<open>An awaited store call is rejected, and nothing but the world has changed, or carried out.\<close>

lemma await_store_cases [case_names rejected accepted]:
  obtains e w where "db_answer E (world s) = (Some e, w)" "await_store E f s = (Some e, s\<lparr>world := w\<rparr>)"
        | w where "db_answer E (world s) = (None, w)" "await_store E f s = (None, (f s)\<lparr>world := w\<rparr>)"
proof (cases "db_answer E (world s)")
  case (Pair a w)
  show ?thesis
  proof (cases a)
    case None
    then show ?thesis using Pair that(2) by (simp add: await_store_def)
  next
    case (Some e)
    then show ?thesis using Pair that(1) by (simp add: await_store_def)
  qed
qed

lemma await_store_rel:
  assumes "\<And>e w. Q (Some e) (s\<lparr>world := w\<rparr>)" and "\<And>w. Q None ((f s)\<lparr>world := w\<rparr>)"
  shows "Q (fst (await_store E f s)) (snd (await_store E f s))"
  by (cases rule: await_store_cases[of E s f]) (simp_all add: assms)

lemma await_store_accepting:
  "fst (db_answer E (world s)) = None \<Longrightarrow> fst (await_store E f s) = None"
  by (cases rule: await_store_cases[of E s f]) simp_all

lemma world_begin: "campaign_begin c (s\<lparr>world := w\<rparr>) = (campaign_begin c s)\<lparr>world := w\<rparr>"
  by (simp add: campaign_begin_def log_def)

lemma world_finalize: "campaign_finalize c (s\<lparr>world := w\<rparr>) = (campaign_finalize c s)\<lparr>world := w\<rparr>"
  by (simp add: campaign_finalize_def log_def Let_def)

text \<open>\<open>sendCampaign\<close> up to its loops, in full.\<close>

lemma campaign_start_cases [case_names rejected stopped disconnected connected]:
  obtains e w where "db_answer E (world s) = (Some e, w)" "campaign_start E c s = (Inl e, s\<lparr>world := w\<rparr>)"
        | e w w0 w1 where "db_answer E (world s) = (None, w0)" "db_answer E w1 = (Some e, w)"
            "campaign_start E c s = (Inl e, (campaign_begin c s)\<lparr>world := w\<rparr>)"
        | w w0 where "db_answer E (world s) = (None, w0)"
            "resolve_account (accountType c) (account_email c) (accounts s) = None"
            "campaign_start E c s
               = (Inr (None, getPendingRecipients (cid c) (recipients s)), (campaign_begin c s)\<lparr>world := w\<rparr>)"
        | account w w0 where "db_answer E (world s) = (None, w0)"
            "resolve_account (accountType c) (account_email c) (accounts s) = Some account"
            "campaign_start E c s
               = (Inr (Some account, getPendingRecipients (cid c) (recipients s)),
                  (campaign_begin c s)\<lparr>world := w\<rparr>)"
proof (cases rule: await_store_cases[of E s "campaign_begin c"])
  case (rejected e w)
  then show ?thesis using that(1) by (simp add: campaign_start_def)
next
  case (accepted w1)
  let ?s1 = "(campaign_begin c s)\<lparr>world := w1\<rparr>"
  show ?thesis
  proof (cases rule: await_store_cases[of E ?s1 id])
    case (rejected e w)
    then show ?thesis using accepted that(2)[where ?w0.0=w1 and ?w1.0=w1 and e=e and w=w]
      by (simp add: campaign_start_def)
  next
    case a2: (accepted w2)
    let ?s2 = "(campaign_begin c s)\<lparr>world := w2\<rparr>"
    have s2: "await_store E id ?s1 = (None, ?s2)" using a2 by simp
    show ?thesis
    proof (cases rule: await_store_cases[of E ?s2 id])
      case (rejected e w)
      then show ?thesis using accepted s2 that(2)[where ?w0.0=w1 and ?w1.0=w2 and e=e and w=w]
        by (simp add: campaign_start_def)
    next
      case a3: (accepted w3)
      let ?s3 = "(campaign_begin c s)\<lparr>world := w3\<rparr>"
      have s3: "await_store E id ?s2 = (None, ?s3)" using a3 by simp
      show ?thesis
      proof (cases "resolve_account (accountType c) (account_email c) (accounts s)")
        case None
        then show ?thesis using accepted s2 s3 that(3)[of w1 w3]
          by (simp add: campaign_start_def Let_def)
      next
        case (Some account)
        show ?thesis
        proof (cases rule: await_store_cases[of E ?s3 id])
          case (rejected e w)
          then show ?thesis using accepted s2 s3 Some that(2)[where ?w0.0=w1 and ?w1.0=w3 and e=e and w=w]
            by (simp add: campaign_start_def Let_def)
        next
          case a4: (accepted w4)
          then show ?thesis using accepted s2 s3 Some that(4)[of w1 account w4]
            by (simp add: campaign_start_def Let_def)
        qed
      qed
    qed
  qed
qed

lemma finalize_call_cases [case_names rejected accepted]:
  obtains e w w1 where "db_answer E w1 = (Some e, w)" "finalize_call E c s = (Some e, s\<lparr>world := w\<rparr>)"
        | w where "finalize_call E c s = (None, (campaign_finalize c s)\<lparr>world := w\<rparr>)"
proof (cases rule: await_store_cases[of E s id])
  case (rejected e w)
  then show ?thesis using that(1)[where e=e and w=w and ?w1.0="world s"] by (simp add: finalize_call_def)
next
  case (accepted w1)
  show ?thesis
  proof (cases rule: await_store_cases[of E "s\<lparr>world := w1\<rparr>" "campaign_finalize c"])
    case (rejected e w)
    then show ?thesis using accepted that(1)[where e=e and w=w and ?w1.0=w1] by (simp add: finalize_call_def)
  next
    case a2: (accepted w)
    then show ?thesis using accepted that(2)[of w] by (simp add: finalize_call_def world_finalize)
  qed
qed

lemma persist_call_cases [case_names rejected accepted skipped]:
  obtains e w where "k = ''google'' \<or> k = ''microsoft''" "db_answer E (world s) = (Some e, w)"
            "persist_call E k a t s = (Some e, s\<lparr>world := w\<rparr>)"
        | w where "k = ''google'' \<or> k = ''microsoft''"
            "persist_call E k a t s = (None, (persist_tokens k a t s)\<lparr>world := w\<rparr>)"
        | "k \<noteq> ''google''" "k \<noteq> ''microsoft''" "persist_call E k a t s = (None, s)"
proof (cases "k = ''google'' \<or> k = ''microsoft''")
  case False
  then show ?thesis using that(3) by (simp add: persist_call_def)
next
  case True
  show ?thesis
  proof (cases rule: await_store_cases[of E s "persist_tokens k a t"])
    case (rejected e w)
    then show ?thesis using True that(1)[of e w] by (simp add: persist_call_def)
  next
    case (accepted w)
    then show ?thesis using True that(2)[of w] by (simp add: persist_call_def)
  qed
qed

text \<open>The provider call of a turn: what it leaves alone, and what it adds to the trace.\<close>

lemma provider_send_fields [simp]:
  "recipients (snd (provider_send E c k a r t s)) = recipients s"
  "campaigns (snd (provider_send E c k a r t s)) = campaigns s"
  "accounts (snd (provider_send E c k a r t s)) = accounts s"
  "isProcessing (snd (provider_send E c k a r t s)) = isProcessing s"
  "polls (snd (provider_send E c k a r t s)) = polls s"
  by (simp_all add: provider_send_def split: prod.splits sum.splits)

lemma provider_send_trace:
  "\<exists>evs. trace (snd (provider_send E c k a r t s)) = trace s @ evs
         \<and> filter is_persist evs = [] \<and> filter is_campaign_status evs = []
         \<and> (k \<noteq> ''smtp'' \<longrightarrow> tokens_threaded t evs \<and> attempts evs = [(rid r, t)]
              \<and> (case fst (provider_send E c k a r t s) of
                    Inl m \<Rightarrow> freshest t evs = t
                  | Inr p \<Rightarrow> freshest t evs = snd p \<and> snd p \<noteq> None))"
proof -
  consider "k = ''smtp''" | "k \<noteq> ''smtp''" "k = ''microsoft''" | "k \<noteq> ''smtp''" "k \<noteq> ''microsoft''"
    by blast
  then show ?thesis
  proof cases
    case 1
    obtain res w where o: "smtp_send E (world s) c r a = (res, w)"
      by (cases "smtp_send E (world s) c r a")
    show ?thesis using 1 o by (cases res) (simp_all add: provider_send_def)
  next
    case 2
    obtain res w where o: "microsoft_send E (world s) c r t = (res, w)"
      by (cases "microsoft_send E (world s) c r t")
    show ?thesis using 2 o by (cases res) (simp_all add: provider_send_def)
  next
    case 3
    obtain res w where o: "gmail_send E (world s) c r a t = (res, w)"
      by (cases "gmail_send E (world s) c r a t")
    show ?thesis using 3 o by (cases res) (simp_all add: provider_send_def)
  qed
qed

text \<open>The five ways through one turn of the send loop.\<close>

lemma send_one_cases [case_names sent caught thrown failed lost]:
  obtains m t' w where "fst (provider_send E c k a r t s) = Inr (m, t')"
            "send_one E c k a r (t, s)
               = (Inr t', (mark_sent E r m (snd (provider_send E c k a r t s)))\<lparr>world := w\<rparr>)"
        | m t' e w w' where "fst (provider_send E c k a r t s) = Inr (m, t')"
            "send_one E c k a r (t, s)
               = (Inr t', (mark_failed E r e ((snd (provider_send E c k a r t s))\<lparr>world := w\<rparr>))\<lparr>world := w'\<rparr>)"
        | m t' e w w1 where "fst (provider_send E c k a r t s) = Inr (m, t')" "db_answer E w1 = (Some e, w)"
            "send_one E c k a r (t, s) = (Inl e, (snd (provider_send E c k a r t s))\<lparr>world := w\<rparr>)"
        | msg w where "fst (provider_send E c k a r t s) = Inl msg"
            "send_one E c k a r (t, s)
               = (Inr t, (mark_failed E r msg (snd (provider_send E c k a r t s)))\<lparr>world := w\<rparr>)"
        | msg e w w1 where "fst (provider_send E c k a r t s) = Inl msg" "db_answer E w1 = (Some e, w)"
            "send_one E c k a r (t, s) = (Inl e, (snd (provider_send E c k a r t s))\<lparr>world := w\<rparr>)"
proof -
  obtain res s1 where p: "provider_send E c k a r t s = (res, s1)"
    by (cases "provider_send E c k a r t s")
  show ?thesis
  proof (cases res)
    case (Inl msg)
    show ?thesis
    proof (cases rule: await_store_cases[of E s1 "mark_failed E r msg"])
      case (rejected e w)
      then show ?thesis using p Inl that(5)[where msg=msg and e=e and w=w and ?w1.0="world s1"]
        by (simp add: send_one_def)
    next
      case (accepted w)
      then show ?thesis using p Inl that(4)[of msg w] by (simp add: send_one_def)
    qed
  next
    case (Inr sendResult)
    obtain m t' where sr: "sendResult = (m, t')" by (cases sendResult)
    show ?thesis
    proof (cases rule: await_store_cases[of E s1 "mark_sent E r m"])
      case (accepted w)
      then show ?thesis using p Inr sr that(1)[of m t' w] by (simp add: send_one_def)
    next
      case (rejected e w)
      show ?thesis
      proof (cases rule: await_store_cases[of E "s1\<lparr>world := w\<rparr>" "mark_failed E r e"])
        case r2: (rejected e' w')
        then show ?thesis using p Inr sr rejected that(3)[where m=m and t'=t' and e=e' and w=w' and ?w1.0=w]
          by (simp add: send_one_def)
      next
        case a2: (accepted w')
        then show ?thesis using p Inr sr rejected that(2)[where m=m and t'=t' and e=e and w=w and w'=w'] by (simp add: send_one_def)
      qed
    qed
  qed
qed

lemma send_one_frame:
  "isProcessing (snd (send_one E c k a r (t, s))) = isProcessing s"
  "polls (snd (send_one E c k a r (t, s))) = polls s"
  "accounts (snd (send_one E c k a r (t, s))) = accounts s"
  "campaigns (snd (send_one E c k a r (t, s))) = campaigns s"
  by (cases rule: send_one_cases[of E c k a r t s]; simp)+

lemma send_one_recipients:
  "recipients (snd (send_one E c k a r (t, s))) = recipients s
   \<or> (\<exists>m ts. recipients (snd (send_one E c k a r (t, s))) = markRecipientSent (rid r) m ts (recipients s))
   \<or> (\<exists>m ts. recipients (snd (send_one E c k a r (t, s))) = markRecipientFailed (rid r) m ts (recipients s))"
  by (cases rule: send_one_cases[of E c k a r t s]) auto

subsection \<open>Reading the trace of a run\<close>

lemma freshest_append: "freshest t (a @ b) = freshest (freshest t a) b"
  by (induction t a rule: freshest.induct) simp_all

lemma tokens_threaded_append:
  "tokens_threaded t (a @ b) = (tokens_threaded t a \<and> tokens_threaded (freshest t a) b)"
  by (induction t a rule: tokens_threaded.induct) simp_all

lemma attempts_append: "attempts (a @ b) = attempts a @ attempts b"
  by (induction a rule: attempts.induct) simp_all

lemma send_one_trace:
  "\<exists>evs. trace (snd (send_one E c k a r (t, s))) = trace s @ evs
         \<and> filter is_persist evs = [] \<and> filter is_campaign_status evs = []
         \<and> (k \<noteq> ''smtp'' \<longrightarrow> stretch_ok t [r] (fst (send_one E c k a r (t, s))) evs)"
proof -
  let ?p = "provider_send E c k a r t s"
  from provider_send_trace[of E c k a r t s] obtain e1 where
    e1: "trace (snd ?p) = trace s @ e1" "filter is_persist e1 = []" "filter is_campaign_status e1 = []"
        "k \<noteq> ''smtp'' \<longrightarrow> tokens_threaded t e1 \<and> attempts e1 = [(rid r, t)]
              \<and> (case fst ?p of Inl m \<Rightarrow> freshest t e1 = t
                  | Inr p \<Rightarrow> freshest t e1 = snd p \<and> snd p \<noteq> None)"
    by blast
  show ?thesis
  proof (cases rule: send_one_cases[of E c k a r t s])
    case (sent m t' w)
    show ?thesis
      using e1 sent
      by (intro exI[of _ "e1 @ [RecipientMarked (rid r) SENT]"])
         (auto simp: stretch_ok_def freshest_append tokens_threaded_append attempts_append)
  next
    case (caught m t' e w w')
    show ?thesis
      using e1 caught
      by (intro exI[of _ "e1 @ [RecipientMarked (rid r) FAILED]"])
         (auto simp: stretch_ok_def freshest_append tokens_threaded_append attempts_append)
  next
    case (thrown m t' e w w1)
    show ?thesis
      using e1 thrown
      by (intro exI[of _ e1]) (auto simp: stretch_ok_def)
  next
    case (failed msg w)
    show ?thesis
      using e1 failed
      by (intro exI[of _ "e1 @ [RecipientMarked (rid r) FAILED]"])
         (auto simp: stretch_ok_def freshest_append tokens_threaded_append attempts_append)
  next
    case (lost msg e w w1)
    show ?thesis
      using e1 lost
      by (intro exI[of _ e1]) (auto simp: stretch_ok_def)
  qed
qed

lemma stretch_ok_Nil: "stretch_ok t [] (Inr t) []"
  by (cases t) (simp_all add: stretch_ok_def)

lemma stretch_ok_stop: "stretch_ok t [r] (Inl e) e1 \<Longrightarrow> stretch_ok t (r # rs) (Inl e) e1"
  by (cases "attempts e1") (auto simp: stretch_ok_def)

lemma stretch_ok_Cons:
  assumes a: "stretch_ok t [r] (Inr t1) e1" and b: "stretch_ok t1 rs res e2"
  shows "stretch_ok t (r # rs) res (e1 @ e2)"
proof -
  have l: "length (attempts e1) = 1" "map fst (attempts e1) = [rid r]"
    using a by (auto simp: stretch_ok_def)
  have f: "freshest t e1 = t1" using a by (simp add: stretch_ok_def)
  have m: "map fst (attempts (e1 @ e2)) = take (length (attempts (e1 @ e2))) (map rid (r # rs))"
    using l b by (simp add: attempts_append stretch_ok_def)
  show ?thesis
    using a b m l f
    by (cases res) (auto simp: stretch_ok_def freshest_append tokens_threaded_append attempts_append)
qed

lemma send_loop_trace:
  "\<exists>evs. trace (snd (send_loop E c k a rs (t, s))) = trace s @ evs
         \<and> filter is_persist evs = [] \<and> filter is_campaign_status evs = []
         \<and> (k \<noteq> ''smtp'' \<longrightarrow> stretch_ok t rs (fst (send_loop E c k a rs (t, s))) evs)"
proof (induction rs arbitrary: t s)
  case Nil
  show ?case by (simp add: stretch_ok_Nil)
next
  case (Cons r rs)
  obtain res s1 where o: "send_one E c k a r (t, s) = (res, s1)"
    by (cases "send_one E c k a r (t, s)")
  from send_one_trace[of E c k a r t s] obtain e1 where
    e1: "trace s1 = trace s @ e1" "filter is_persist e1 = []" "filter is_campaign_status e1 = []"
        "k \<noteq> ''smtp'' \<longrightarrow> stretch_ok t [r] res e1"
    unfolding o by auto
  show ?case
  proof (cases res)
    case (Inl e)
    then show ?thesis using o e1 by (intro exI[of _ e1]) (simp add: stretch_ok_stop)
  next
    case (Inr t1)
    from Cons.IH[of t1 s1] obtain e2 where
      e2: "trace (snd (send_loop E c k a rs (t1, s1))) = trace s1 @ e2"
          "filter is_persist e2 = []" "filter is_campaign_status e2 = []"
          "k \<noteq> ''smtp'' \<longrightarrow> stretch_ok t1 rs (fst (send_loop E c k a rs (t1, s1))) e2"
      by blast
    have "k \<noteq> ''smtp'' \<longrightarrow> stretch_ok t (r # rs) (fst (send_loop E c k a rs (t1, s1))) (e1 @ e2)"
      using e1(4) e2(4) Inr stretch_ok_Cons by blast
    then show ?thesis
      using o Inr e1 e2 by (intro exI[of _ "e1 @ e2"]) simp
  qed
qed

lemma send_loop_frame:
  "accounts (snd (send_loop E c k a rs (t, s))) = accounts s
   \<and> campaigns (snd (send_loop E c k a rs (t, s))) = campaigns s"
proof (induction rs arbitrary: t s)
  case Nil
  show ?case by simp
next
  case (Cons r rs)
  obtain res s1 where o: "send_one E c k a r (t, s) = (res, s1)"
    by (cases "send_one E c k a r (t, s)")
  have f: "accounts s1 = accounts s" "campaigns s1 = campaigns s"
    using send_one_frame(3,4)[of E c k a r t s] by (simp_all add: o)
  show ?case using o f Cons.IH by (cases res) simp_all
qed

lemma fail_loop_effect:
  "\<exists>evs. trace (snd (fail_loop E c k rs s)) = trace s @ evs
         \<and> filter is_persist evs = [] \<and> filter is_campaign_status evs = [] \<and> attempts evs = []
         \<and> accounts (snd (fail_loop E c k rs s)) = accounts s
         \<and> campaigns (snd (fail_loop E c k rs s)) = campaigns s"
proof (induction rs arbitrary: s)
  case Nil
  show ?case by simp
next
  case (Cons r rs)
  show ?case
  proof (cases rule: await_store_cases[of E s "fail_one E c k r"])
    case (rejected e w)
    then show ?thesis by (intro exI[of _ "[]"]) simp
  next
    case (accepted w)
    let ?s1 = "(fail_one E c k r s)\<lparr>world := w\<rparr>"
    from Cons.IH[of ?s1] obtain e2 where
      e2: "trace (snd (fail_loop E c k rs ?s1)) = trace ?s1 @ e2"
          "filter is_persist e2 = []" "filter is_campaign_status e2 = []" "attempts e2 = []"
          "accounts (snd (fail_loop E c k rs ?s1)) = accounts ?s1"
          "campaigns (snd (fail_loop E c k rs ?s1)) = campaigns ?s1"
      by blast
    show ?thesis
      using accepted e2 by (intro exI[of _ "RecipientMarked (rid r) FAILED # e2"]) simp
  qed
qed

lemma events_since_append: "trace s' = trace s @ evs \<Longrightarrow> events_since s s' = evs"
  by (simp add: events_since_def)


subsection \<open>The account store\<close>









lemma find_updateOne_cid:
  "find (\<lambda>c. cid c = j) (updateOne (\<lambda>c. cid c = i) (\<lambda>c. c\<lparr>cstatus := st\<rparr>) cs)
     = (if j = i then map_option (\<lambda>c. c\<lparr>cstatus := st\<rparr>) (find (\<lambda>c. cid c = i) cs)
        else find (\<lambda>c. cid c = j) cs)"
  by (induction cs) auto

lemma campaign_status_update:
  "campaign_status (updateCampaignStatus i st cs) j
     = (if j = i then map_option (\<lambda>_. st) (campaign_status cs i) else campaign_status cs j)"
  by (simp add: campaign_status_def updateCampaignStatus_def findOne_def find_updateOne_cid
        option.map_comp comp_def)

subsection \<open>A store that accepts every call\<close>

lemma send_loop_completes:
  assumes "\<And>w. fst (db_answer E w) = None"
  shows "\<exists>t'. fst (send_loop E c k a rs (t, s)) = Inr t'"
proof (induction rs arbitrary: t s)
  case Nil
  show ?case by simp
next
  case (Cons r rs)
  show ?case
  proof (cases rule: send_one_cases[of E c k a r t s])
    case (sent m t' w)
    then show ?thesis using Cons.IH by simp
  next
    case (caught m t' e w w')
    then show ?thesis using Cons.IH by simp
  next
    case (thrown m t' e w w1)
    then show ?thesis using assms[of w1] by simp
  next
    case (failed msg w)
    then show ?thesis using Cons.IH by simp
  next
    case (lost msg e w w1)
    then show ?thesis using assms[of w1] by simp
  qed
qed

lemma fail_loop_completes:
  assumes "\<And>w. fst (db_answer E w) = None"
  shows "fst (fail_loop E c k rs s) = None"
proof (induction rs arbitrary: s)
  case Nil
  show ?case by simp
next
  case (Cons r rs)
  show ?case
  proof (cases rule: await_store_cases[of E s "fail_one E c k r"])
    case (rejected e w)
    then show ?thesis using assms[of "world s"] by simp
  next
    case (accepted w)
    then show ?thesis using Cons.IH by simp
  qed
qed

lemma finalize_call_completes:
  assumes "\<And>w. fst (db_answer E w) = None"
  shows "fst (finalize_call E c s) = None"
proof (cases rule: finalize_call_cases[of E c s])
  case (rejected e w w1)
  then show ?thesis using assms[of w1] by simp
next
  case (accepted w)
  then show ?thesis by simp
qed

lemma sendCampaign_completes:
  assumes a: "\<And>w. fst (db_answer E w) = None"
  shows "fst (sendCampaign E c s) = None"
proof (cases rule: campaign_start_cases[of E s c])
  case (rejected e w)
  then show ?thesis using a[of "world s"] by simp
next
  case (stopped e w w0 w1)
  then show ?thesis using a[of w1] by simp
next
  case (disconnected w w0)
  let ?s1 = "(campaign_begin c s)\<lparr>world := w\<rparr>"
  let ?pend = "getPendingRecipients (cid c) (recipients s)"
  obtain s2 where l: "fail_loop E c (accountType c) ?pend ?s1 = (None, s2)"
    using fail_loop_completes[OF a, of c "accountType c" ?pend ?s1]
    by (cases "fail_loop E c (accountType c) ?pend ?s1") simp
  show ?thesis
    using disconnected l finalize_call_completes[OF a, of c s2] by (simp add: sendCampaign_def)
next
  case (connected account w w0)
  let ?s1 = "(campaign_begin c s)\<lparr>world := w\<rparr>"
  let ?pend = "getPendingRecipients (cid c) (recipients s)"
  obtain t' s2 where l: "send_loop E c (accountType c) account ?pend (account_tokens account, ?s1) = (Inr t', s2)"
    using send_loop_completes[OF a, of c "accountType c" account ?pend "account_tokens account" ?s1]
    by (cases "send_loop E c (accountType c) account ?pend (account_tokens account, ?s1)") auto
  show ?thesis
  proof (cases rule: persist_call_cases[where k="accountType c" and E=E and a=account and t=t' and s=s2])
    case (rejected e w')
    then show ?thesis using a[of "world s2"] by simp
  next
    case (accepted w')
    then show ?thesis
      using connected l finalize_call_completes[OF a, of c "(persist_tokens (accountType c) account t' s2)\<lparr>world := w'\<rparr>"]
      by (simp add: sendCampaign_def)
  next
    case skipped
    then show ?thesis
      using connected l finalize_call_completes[OF a, of c s2] by (simp add: sendCampaign_def)
  qed
qed

subsection \<open>The token set of a campaign\<close>




lemmas runner_defs =
  example_sys_def example_campaign_def example_env_def getPendingRecipients_def
  resolve_account_def getMicrosoftAccount_def findOne_def normalizeEmail_def
  toLowerCase_def lower_char_def trim_def is_js_space_def fresh_recipient_def
  campaign_start_def await_store_def campaign_begin_def log_def updateCampaignStatus_def
  send_one_def provider_send_def mark_sent_def mark_failed_def
  markRecipientSent_def markRecipientFailed_def
  persist_call_def persist_tokens_def updateMicrosoftAccountTokens_def
  finalize_call_def campaign_finalize_def finalizeCampaignStatus_def
  aggregate_counts_def status_of_counts_def accountType_def Let_def

lemma example_run:
  "fst (sendCampaign example_env example_campaign example_sys) = None"
  "trace (snd (sendCampaign example_env example_campaign example_sys)) =
     [CampaignStatus 1 ''SENDING'',
      SendAttempt ''microsoft'' 1 (Some 0), SendReturned 1 (Some 1), RecipientMarked 1 SENT,
      SendAttempt ''microsoft'' 2 (Some 1), SendThrew 2 ''Mailbox unavailable'', RecipientMarked 2 FAILED,
      SendAttempt ''microsoft'' 3 (Some 1), SendReturned 3 (Some 3), RecipientMarked 3 SENT,
      TokensPersisted ''microsoft'' ''s@x.io'' (Some 3),
      CampaignStatus 1 ''PARTIAL'']"
  "map (\<lambda>r. (campaign_id r, status r)) (recipients (snd (sendCampaign example_env example_campaign example_sys)))
     = [(1, SENT), (1, FAILED), (1, SENT)]"
  "map cstatus (campaigns (snd (sendCampaign example_env example_campaign example_sys))) = [''PARTIAL'']"
  by (simp_all add: sendCampaign_def runner_defs)

lemma example_abort:
  "fst (sendCampaign flaky_env example_campaign example_sys) = Some ''store unreachable''"
  "trace (snd (sendCampaign flaky_env example_campaign example_sys)) =
     [CampaignStatus 1 ''SENDING'',
      SendAttempt ''microsoft'' 1 (Some 0), SendReturned 1 (Some 1), RecipientMarked 1 SENT,
      SendAttempt ''microsoft'' 2 (Some 1), SendThrew 2 ''Mailbox unavailable'']"
  "map (\<lambda>r. (campaign_id r, status r)) (recipients (snd (sendCampaign flaky_env example_campaign example_sys)))
     = [(1, SENT), (1, PENDING), (1, PENDING)]"
  "map cstatus (campaigns (snd (sendCampaign flaky_env example_campaign example_sys))) = [''SENDING'']"
  by (simp_all add: sendCampaign_def flaky_env_def runner_defs)


subsection \<open>The status of a campaign\<close>

lemma aggregate_counts_eq:
  "sent_count (aggregate_counts i rs) = count_status i SENT rs + count_status i OPENED rs"
  "failed_count (aggregate_counts i rs) = count_status i FAILED rs"
  "pending_count (aggregate_counts i rs) = count_status i PENDING rs"
  by (induction rs) (simp_all add: aggregate_counts_def count_status_def Let_def)

lemma finalize_by_counts:
  "finalizeCampaignStatus i rs cs = (status_for i rs, updateCampaignStatus i (status_for i rs) cs)"
  by (simp add: finalizeCampaignStatus_def Let_def aggregate_counts_eq status_for_def)

text \<open>What follows the loops: the token write, if there is one, and the finalization.\<close>

lemma finalize_call_effect:
  "recipients (snd (finalize_call E c s)) = recipients s
   \<and> (case fst (finalize_call E c s) of
         None \<Rightarrow>
           trace (snd (finalize_call E c s))
             = trace s @ [CampaignStatus (cid c) (status_for (cid c) (recipients s))]
           \<and> campaigns (snd (finalize_call E c s))
               = updateCampaignStatus (cid c) (status_for (cid c) (recipients s)) (campaigns s)
       | Some e \<Rightarrow>
           trace (snd (finalize_call E c s)) = trace s
           \<and> campaigns (snd (finalize_call E c s)) = campaigns s)"
  by (cases rule: finalize_call_cases[of E c s]) (simp_all add: finalize_by_counts)

lemma persist_call_quiet:
  "\<exists>evs. trace (snd (persist_call E k a t s)) = trace s @ evs
         \<and> filter is_campaign_status evs = []
         \<and> campaigns (snd (persist_call E k a t s)) = campaigns s
         \<and> recipients (snd (persist_call E k a t s)) = recipients s"
  by (cases rule: persist_call_cases[where k=k and E=E and a=a and t=t and s=s])
     (auto simp: persist_tokens_trace)

text \<open>
  The loops and what follows them, from the state \<open>s1\<close> that \<open>sendCampaign\<close> has reached
  when its first calls have been answered.
\<close>

lemma finish_effect:
  assumes fin: "finalize_call E c s2 = (out, s')"
      and s2: "trace s2 = trace s1 @ mid" "filter is_campaign_status mid = []"
              "campaigns s2 = campaigns s1"
  shows "\<exists>rest. trace s' = trace s1 @ rest
           \<and> filter is_campaign_status rest
               = (if out = None then [CampaignStatus (cid c) (status_for (cid c) (recipients s'))] else [])
           \<and> campaigns s'
               = (if out = None then updateCampaignStatus (cid c) (status_for (cid c) (recipients s')) (campaigns s1)
                  else campaigns s1)"
proof (cases out)
  case None
  then show ?thesis
    using finalize_call_effect[of E c s2] fin s2
    by (intro exI[of _ "mid @ [CampaignStatus (cid c) (status_for (cid c) (recipients s'))]"]) simp
next
  case (Some e)
  then show ?thesis
    using finalize_call_effect[of E c s2] fin s2
    by (intro exI[of _ mid]) simp
qed

lemma stop_effect:
  assumes s2: "trace s2 = trace s1 @ mid" "filter is_campaign_status mid = []"
              "campaigns s2 = campaigns s1"
  shows "\<exists>rest. trace s2 = trace s1 @ rest
           \<and> filter is_campaign_status rest
               = (if Some e = None then [CampaignStatus (cid c) (status_for (cid c) (recipients s2))] else [])
           \<and> campaigns s2
               = (if Some e = None then updateCampaignStatus (cid c) (status_for (cid c) (recipients s2)) (campaigns s1)
                  else campaigns s1)"
  using s2 by (intro exI[of _ mid]) simp

lemma body_effect:
  assumes run: "sendCampaign E c s = (out, s')"
      and st: "campaign_start E c s = (Inr (ao, pend), s1)"
  shows "\<exists>rest. trace s' = trace s1 @ rest
           \<and> filter is_campaign_status rest
               = (if out = None then [CampaignStatus (cid c) (status_for (cid c) (recipients s'))] else [])
           \<and> campaigns s'
               = (if out = None then updateCampaignStatus (cid c) (status_for (cid c) (recipients s')) (campaigns s1)
                  else campaigns s1)"
proof (cases ao)
  case None
  obtain r2 s2 where l: "fail_loop E c (accountType c) pend s1 = (r2, s2)"
    by (cases "fail_loop E c (accountType c) pend s1")
  from fail_loop_effect[of E c "accountType c" pend s1] obtain mid where
    mid: "trace s2 = trace s1 @ mid" "filter is_campaign_status mid = []" "campaigns s2 = campaigns s1"
    unfolding l by auto
  show ?thesis
  proof (cases r2)
    case (Some e)
    then have "out = Some e" "s' = s2" using run st None l by (simp_all add: sendCampaign_def)
    then show ?thesis using stop_effect[OF mid, of e c] by simp
  next
    case n: None
    then have "finalize_call E c s2 = (out, s')" using run st None l by (simp add: sendCampaign_def)
    from finish_effect[OF this mid] show ?thesis .
  qed
next
  case (Some account)
  let ?k = "accountType c"
  obtain res s2 where l: "send_loop E c ?k account pend (account_tokens account, s1) = (res, s2)"
    by (cases "send_loop E c ?k account pend (account_tokens account, s1)")
  from send_loop_trace[of E c ?k account pend "account_tokens account" s1] obtain mid where
    mid: "trace s2 = trace s1 @ mid" "filter is_campaign_status mid = []"
    unfolding l by auto
  have cs: "campaigns s2 = campaigns s1"
    using send_loop_frame[of E c ?k account pend "account_tokens account" s1] by (simp add: l)
  show ?thesis
  proof (cases res)
    case (Inl e)
    then have "out = Some e" "s' = s2" using run st Some l by (simp_all add: sendCampaign_def)
    then show ?thesis using stop_effect[OF mid cs, of e c] by simp
  next
    case (Inr latestTokens)
    obtain r3 s3 where p: "persist_call E ?k account latestTokens s2 = (r3, s3)"
      by (cases "persist_call E ?k account latestTokens s2")
    from persist_call_quiet[of E ?k account latestTokens s2] obtain e3 where
      "trace s3 = trace s2 @ e3" "filter is_campaign_status e3 = []" "campaigns s3 = campaigns s2"
      unfolding p by auto
    then have m3: "trace s3 = trace s1 @ (mid @ e3)" "filter is_campaign_status (mid @ e3) = []"
              "campaigns s3 = campaigns s1"
      using mid cs by simp_all
    show ?thesis
    proof (cases r3)
      case (Some e)
      then have "out = Some e" "s' = s3" using run st \<open>ao = Some account\<close> l Inr p
        by (simp_all add: sendCampaign_def)
      then show ?thesis using stop_effect[OF m3, of e c] by simp
    next
      case None
      then have "finalize_call E c s3 = (out, s')" using run st \<open>ao = Some account\<close> l Inr p
        by (simp add: sendCampaign_def)
      from finish_effect[OF this m3] show ?thesis .
    qed
  qed
qed

text \<open>
  C2. Take any run of \<open>sendCampaign\<close>, to its return or to the rejection that ends it.
  Its first call writes the status \<open>SENDING\<close>. If the store rejects that call, the run
  ends there, with nothing attempted and nothing changed. If the store carries it out, the
  campaign has the status \<open>SENDING\<close> in the store, with every recipient as before; the
  events of the run start with this write, so that every attempt and every change of a
  recipient comes after it; and the campaign collection stays as this write left it until
  the finalization. A run that returns has ended with the status write of
  \<open>finalizeCampaignStatus\<close>, the only other status write of the run, and the campaign
  then has in the store the status that the table gives for the numbers of its recipients
  that are pending, failed, and sent or opened: \<open>SENDING\<close> when any is pending; otherwise
  \<open>PARTIAL\<close> when some are sent and some failed, \<open>FAILED\<close> when none is sent and some
  failed, and \<open>COMPLETED\<close> in every other case. With a store that accepts every call the
  run returns.
\<close>

theorem C2_campaign_status:
  assumes run: "sendCampaign E c s = (out, s')"
  shows "(case db_answer E (world s) of
            (Some e, w) \<Rightarrow> out = Some e \<and> s' = s\<lparr>world := w\<rparr>
          | (None, w) \<Rightarrow>
              (\<exists>rest. events_since s s' = CampaignStatus (cid c) ''SENDING'' # rest
                  \<and> filter is_campaign_status rest
                      = (if out = None
                         then [CampaignStatus (cid c) (status_for (cid c) (recipients s'))] else []))
              \<and> campaigns s'
                  = (if out = None
                     then updateCampaignStatus (cid c) (status_for (cid c) (recipients s'))
                            (campaigns (campaign_begin c s))
                     else campaigns (campaign_begin c s)))
       \<and> campaign_status (campaigns (campaign_begin c s)) (cid c)
           = map_option (\<lambda>_. ''SENDING'') (campaign_status (campaigns s) (cid c))
       \<and> recipients (campaign_begin c s) = recipients s
       \<and> (out = None
            \<longrightarrow> campaign_status (campaigns s') (cid c)
                  = map_option (\<lambda>_. status_for (cid c) (recipients s')) (campaign_status (campaigns s) (cid c)))
       \<and> ((\<forall>w. fst (db_answer E w) = None) \<longrightarrow> out = None)
       \<and> finalizeCampaignStatus i rs cs = (status_for i rs, updateCampaignStatus i (status_for i rs) cs)
       \<and> campaign_status (snd (finalizeCampaignStatus i rs cs)) i
           = map_option (\<lambda>_. status_for i rs) (campaign_status cs i)
       \<and> status_for i rs
           = status_of_counts (count_status i SENT rs + count_status i OPENED rs)
               (count_status i FAILED rs) (count_status i PENDING rs)
       \<and> (pending > 0 \<longrightarrow> status_of_counts sent failed pending = ''SENDING'')
       \<and> (pending = 0 \<and> sent > 0 \<and> failed > 0 \<longrightarrow> status_of_counts sent failed pending = ''PARTIAL'')
       \<and> (pending = 0 \<and> sent = 0 \<and> failed > 0 \<longrightarrow> status_of_counts sent failed pending = ''FAILED'')
       \<and> (pending = 0 \<and> failed = 0 \<longrightarrow> status_of_counts sent failed pending = ''COMPLETED'')
       \<and> status_of_counts 3 0 0 = ''COMPLETED''
       \<and> status_of_counts 2 1 0 = ''PARTIAL''
       \<and> status_of_counts 0 2 0 = ''FAILED''
       \<and> status_of_counts 1 0 1 = ''SENDING''"
proof -
  let ?CS = "CampaignStatus (cid c) ''SENDING''"
  let ?final = "status_for (cid c) (recipients s')"
  let ?begun = "(\<exists>rest. events_since s s' = ?CS # rest
                  \<and> filter is_campaign_status rest
                      = (if out = None then [CampaignStatus (cid c) ?final] else []))
              \<and> campaigns s'
                  = (if out = None
                     then updateCampaignStatus (cid c) ?final (campaigns (campaign_begin c s))
                     else campaigns (campaign_begin c s))"
  have A: "case db_answer E (world s) of
            (Some e, w) \<Rightarrow> out = Some e \<and> s' = s\<lparr>world := w\<rparr>
          | (None, w) \<Rightarrow> ?begun"
  proof (cases rule: campaign_start_cases[of E s c])
    case (rejected e w)
    then have r: "out = Some e" "s' = s\<lparr>world := w\<rparr>"
      using run by (simp_all add: sendCampaign_def)
    show ?thesis unfolding rejected(1) r by simp
  next
    case (stopped e w w0 w1)
    then have r: "out = Some e" "s' = (campaign_begin c s)\<lparr>world := w\<rparr>"
      using run by (simp_all add: sendCampaign_def)
    have "trace s' = trace s @ [?CS]" using r by simp
    from events_since_append[OF this] have "?begun" using r by simp
    then show ?thesis using stopped(1) by simp
  next
    case (disconnected w w0)
    let ?s1 = "(campaign_begin c s)\<lparr>world := w\<rparr>"
    from body_effect[OF run disconnected(3)] obtain rest where
      rest: "trace s' = trace ?s1 @ rest"
            "filter is_campaign_status rest = (if out = None then [CampaignStatus (cid c) ?final] else [])"
            "campaigns s' = (if out = None then updateCampaignStatus (cid c) ?final (campaigns ?s1)
                             else campaigns ?s1)"
      by blast
    have "trace s' = trace s @ ?CS # rest" using rest(1) by simp
    from events_since_append[OF this] have "?begun" using rest(2,3) by simp
    then show ?thesis using disconnected(1) by simp
  next
    case (connected account w w0)
    let ?s1 = "(campaign_begin c s)\<lparr>world := w\<rparr>"
    from body_effect[OF run connected(3)] obtain rest where
      rest: "trace s' = trace ?s1 @ rest"
            "filter is_campaign_status rest = (if out = None then [CampaignStatus (cid c) ?final] else [])"
            "campaigns s' = (if out = None then updateCampaignStatus (cid c) ?final (campaigns ?s1)
                             else campaigns ?s1)"
      by blast
    have "trace s' = trace s @ ?CS # rest" using rest(1) by simp
    from events_since_append[OF this] have "?begun" using rest(2,3) by simp
    then show ?thesis using connected(1) by simp
  qed
  have B: "campaign_status (campaigns (campaign_begin c s)) (cid c)
             = map_option (\<lambda>_. ''SENDING'') (campaign_status (campaigns s) (cid c))"
    by (simp add: campaign_status_update)
  have C: "recipients (campaign_begin c s) = recipients s" by simp
  have D: "out = None
            \<longrightarrow> campaign_status (campaigns s') (cid c)
                  = map_option (\<lambda>_. ?final) (campaign_status (campaigns s) (cid c))"
  proof
    assume n: "out = None"
    obtain a w where d: "db_answer E (world s) = (a, w)" by (cases "db_answer E (world s)")
    show "campaign_status (campaigns s') (cid c)
            = map_option (\<lambda>_. ?final) (campaign_status (campaigns s) (cid c))"
    proof (cases a)
      case None
      then have "campaigns s' = updateCampaignStatus (cid c) ?final (campaigns (campaign_begin c s))"
        using A d n by simp
      then show ?thesis by (simp add: campaign_status_update option.map_comp comp_def)
    next
      case (Some e)
      then show ?thesis using A d n by simp
    qed
  qed
  have F: "(\<forall>w. fst (db_answer E w) = None) \<longrightarrow> out = None"
  proof
    assume "\<forall>w. fst (db_answer E w) = None"
    then have "fst (sendCampaign E c s) = None" by (intro sendCampaign_completes) simp
    then show "out = None" using run by simp
  qed
  have G: "finalizeCampaignStatus i rs cs = (status_for i rs, updateCampaignStatus i (status_for i rs) cs)"
    by (rule finalize_by_counts)
  have H: "campaign_status (snd (finalizeCampaignStatus i rs cs)) i
             = map_option (\<lambda>_. status_for i rs) (campaign_status cs i)"
    by (simp add: finalize_by_counts campaign_status_update)
  have I: "status_for i rs
           = status_of_counts (count_status i SENT rs + count_status i OPENED rs)
               (count_status i FAILED rs) (count_status i PENDING rs)"
    by (simp add: status_for_def)
  have T: "(pending > 0 \<longrightarrow> status_of_counts sent failed pending = ''SENDING'')
       \<and> (pending = 0 \<and> sent > 0 \<and> failed > 0 \<longrightarrow> status_of_counts sent failed pending = ''PARTIAL'')
       \<and> (pending = 0 \<and> sent = 0 \<and> failed > 0 \<longrightarrow> status_of_counts sent failed pending = ''FAILED'')
       \<and> (pending = 0 \<and> failed = 0 \<longrightarrow> status_of_counts sent failed pending = ''COMPLETED'')
       \<and> status_of_counts 3 0 0 = ''COMPLETED''
       \<and> status_of_counts 2 1 0 = ''PARTIAL''
       \<and> status_of_counts 0 2 0 = ''FAILED''
       \<and> status_of_counts 1 0 1 = ''SENDING''"
    by (simp add: status_of_counts_def)
  show ?thesis
    using A B C D F G H I T by (intro conjI) (elim conjE; assumption)+
qed

lemma count_status_map:
  "count_status i st rs
     = length (filter (\<lambda>p. fst p = i \<and> snd p = st) (map (\<lambda>r. (campaign_id r, status r)) rs))"
  by (simp add: count_status_def filter_map comp_def)

theorem C2_witness:
  "fst (sendCampaign example_env example_campaign example_sys) = None
   \<and> campaign_status (campaigns example_sys) 1 = Some ''QUEUED''
   \<and> campaign_status (campaigns (campaign_begin example_campaign example_sys)) 1 = Some ''SENDING''
   \<and> status_for 1 (recipients (snd (sendCampaign example_env example_campaign example_sys))) = ''PARTIAL''
   \<and> campaign_status (campaigns (snd (sendCampaign example_env example_campaign example_sys))) 1
       = Some ''PARTIAL''
   \<and> fst (sendCampaign flaky_env example_campaign example_sys) = Some ''store unreachable''
   \<and> campaigns (snd (sendCampaign flaky_env example_campaign example_sys))
       = campaigns (campaign_begin example_campaign example_sys)"
proof -
  let ?r = "sendCampaign example_env example_campaign example_sys"
  let ?f = "sendCampaign flaky_env example_campaign example_sys"
  have c: "cid example_campaign = 1" by (simp add: example_campaign_def)
  have q: "campaign_status (campaigns example_sys) 1 = Some ''QUEUED''"
    by (simp add: campaign_status_def findOne_def example_sys_def example_campaign_def)
  have p: "status_for 1 (recipients (snd ?r)) = ''PARTIAL''"
    by (simp add: status_for_def count_status_map example_run status_of_counts_def)
  have w: "db_answer flaky_env (world example_sys) = (None, 0)"
    by (simp add: flaky_env_def example_env_def example_sys_def)
  have h1: "?r = (fst ?r, snd ?r)" by simp
  have h2: "?f = (fst ?f, snd ?f)" by simp
  note th = C2_campaign_status [OF h1]
  have a: "campaign_status (campaigns (campaign_begin example_campaign example_sys)) (cid example_campaign)
             = map_option (\<lambda>_. ''SENDING'') (campaign_status (campaigns example_sys) (cid example_campaign))"
    by (rule th[THEN conjunct2, THEN conjunct1])
  have b: "fst ?r = None
            \<longrightarrow> campaign_status (campaigns (snd ?r)) (cid example_campaign)
                  = map_option (\<lambda>_. status_for (cid example_campaign) (recipients (snd ?r)))
                      (campaign_status (campaigns example_sys) (cid example_campaign))"
    by (rule th[THEN conjunct2, THEN conjunct2, THEN conjunct2, THEN conjunct1])
  from C2_campaign_status [OF h2]
  have "case db_answer flaky_env (world example_sys) of
          (Some e, w) \<Rightarrow> fst ?f = Some e \<and> snd ?f = example_sys\<lparr>world := w\<rparr>
        | (None, w) \<Rightarrow>
            (\<exists>rest. events_since example_sys (snd ?f) = CampaignStatus (cid example_campaign) ''SENDING'' # rest
                \<and> filter is_campaign_status rest
                    = (if fst ?f = None
                       then [CampaignStatus (cid example_campaign)
                               (status_for (cid example_campaign) (recipients (snd ?f)))] else []))
            \<and> campaigns (snd ?f)
                = (if fst ?f = None
                   then updateCampaignStatus (cid example_campaign)
                          (status_for (cid example_campaign) (recipients (snd ?f)))
                          (campaigns (campaign_begin example_campaign example_sys))
                   else campaigns (campaign_begin example_campaign example_sys))"
    by (rule conjunct1)
  then have d: "campaigns (snd ?f) = campaigns (campaign_begin example_campaign example_sys)"
    unfolding w by (simp add: example_abort)
  show ?thesis
    using a b d p q by (simp add: c example_run example_abort)
qed

subsection \<open>Updates by id\<close>

lemma rid_updateOne:
  "(\<And>x. rid x = j \<Longrightarrow> rid (f x) = j) \<Longrightarrow> map rid (updateOne (\<lambda>x. rid x = j) f xs) = map rid xs"
  by (induction xs) auto

lemma find_updateOne:
  "(\<And>x. rid x = j \<Longrightarrow> rid (f x) = j) \<Longrightarrow>
   find (\<lambda>x. rid x = i) (updateOne (\<lambda>x. rid x = j) f xs)
     = (if i = j then map_option f (find (\<lambda>x. rid x = j) xs) else find (\<lambda>x. rid x = i) xs)"
  by (induction xs) auto

lemma status_by_id_updateOne:
  assumes "\<And>x. rid x = j \<Longrightarrow> rid (f x) = j"
  shows "status_by_id (updateOne (\<lambda>x. rid x = j) f xs) i
     = (if i = j then map_option (\<lambda>x. status (f x)) (find (\<lambda>x. rid x = j) xs) else status_by_id xs i)"
  by (simp add: status_by_id_def find_updateOne[OF assms] option.map_comp comp_def)

lemma status_by_id_sent:
  "status_by_id (markRecipientSent j m ts rs) i
     = (if i = j then map_option (\<lambda>_. SENT) (status_by_id rs j) else status_by_id rs i)"
  unfolding markRecipientSent_def
  by (subst status_by_id_updateOne) (simp_all add: status_by_id_def option.map_comp comp_def)

lemma status_by_id_failed:
  "status_by_id (markRecipientFailed j m ts rs) i
     = (if i = j then map_option (\<lambda>_. FAILED) (status_by_id rs j) else status_by_id rs i)"
  unfolding markRecipientFailed_def
  by (subst status_by_id_updateOne) (simp_all add: status_by_id_def option.map_comp comp_def)

lemma status_by_id_save:
  "status_by_id (save r' rs) i
     = (if i = rid r' then map_option (\<lambda>_. status r') (status_by_id rs i) else status_by_id rs i)"
  unfolding save_def
  by (subst status_by_id_updateOne) (simp_all add: status_by_id_def option.map_comp comp_def)

lemma list_all_updateOne:
  "list_all Q xs \<Longrightarrow> (\<And>x. x \<in> set xs \<Longrightarrow> P x \<Longrightarrow> Q (f x)) \<Longrightarrow> list_all Q (updateOne P f xs)"
  by (induction xs) auto

lemma find_distinct_rid:
  "distinct (map rid rs) \<Longrightarrow> r \<in> set rs \<Longrightarrow> find (\<lambda>x. rid x = rid r) rs = Some r"
  by (induction rs) (auto simp: rev_image_eqI)

lemma store_ok_sent: "store_ok rs \<Longrightarrow> store_ok (markRecipientSent j m ts rs)"
  unfolding store_ok_def markRecipientSent_def
  by (auto simp: rid_updateOne intro!: list_all_updateOne)

lemma store_ok_failed:
  assumes ok: "store_ok rs" and p: "status_by_id rs j = Some PENDING"
  shows "store_ok (markRecipientFailed j m ts rs)"
proof -
  have d: "distinct (map rid rs)" using ok by (simp add: store_ok_def)
  have q: "list_all (\<lambda>r. status r = PENDING \<or> status r = FAILED \<longrightarrow> sent_at r = None) rs"
    using ok by (simp add: store_ok_def)
  have "\<And>x. x \<in> set rs \<Longrightarrow> rid x = j \<Longrightarrow> sent_at x = None"
  proof -
    fix x assume x: "x \<in> set rs" "rid x = j"
    from find_distinct_rid[OF d x(1)] x(2) p have "status x = PENDING"
      by (simp add: status_by_id_def)
    with q x(1) show "sent_at x = None" by (auto simp: list_all_iff)
  qed
  then show ?thesis
    unfolding store_ok_def markRecipientFailed_def using d q
    by (auto simp: rid_updateOne intro!: list_all_updateOne)
qed

lemma store_ok_save:
  assumes ok: "store_ok rs" and s: "status r' = OPENED \<or> status r' = SENT"
  shows "store_ok (save r' rs)"
  using assms unfolding store_ok_def save_def
  by (auto simp: rid_updateOne intro!: list_all_updateOne)

lemma pending_ok_mono:
  assumes "pending_ok rs todo"
      and "\<And>i. status_by_id rs i = Some PENDING \<Longrightarrow> status_by_id rs' i = Some PENDING"
  shows "pending_ok rs' todo"
  using assms unfolding pending_ok_def by (auto simp: list_all_iff)

lemma pending_ok_tail:
  assumes "pending_ok rs (r # todo)"
      and "\<And>i. i \<noteq> rid r \<Longrightarrow> status_by_id rs' i = status_by_id rs i"
  shows "pending_ok rs' todo"
proof -
  have "\<And>x. x \<in> set todo \<Longrightarrow> status_by_id rs' (rid x) = Some PENDING"
  proof -
    fix x assume x: "x \<in> set todo"
    then have "rid x \<noteq> rid r" using assms(1) by (auto simp: pending_ok_def image_iff)
    then show "status_by_id rs' (rid x) = Some PENDING"
      using assms x by (simp add: pending_ok_def list_all_iff)
  qed
  then show ?thesis using assms(1) by (simp add: pending_ok_def list_all_iff)
qed

lemma pending_ok_snapshot:
  assumes "distinct (map rid rs)"
  shows "pending_ok rs (getPendingRecipients c rs)"
proof -
  have "distinct (map rid (getPendingRecipients c rs))"
    using assms unfolding getPendingRecipients_def by (simp add: distinct_map_filter)
  moreover have "\<And>r. r \<in> set (getPendingRecipients c rs) \<Longrightarrow> status_by_id rs (rid r) = Some PENDING"
    using find_distinct_rid[OF assms]
    by (auto simp: getPendingRecipients_def status_by_id_def)
  ultimately show ?thesis by (simp add: pending_ok_def list_all_iff)
qed

subsection \<open>The invariant of the scheduler\<close>

lemma allowed_refl: "allowed x x"
  by (cases "(x, x)" rule: allowed.cases) simp_all

lemma sys_inv_cases:
  "sys_inv s = (store_ok (recipients s) \<and>
            ((polls s = [] \<and> \<not> isProcessing s) \<or>
             (\<exists>p. polls s = [p] \<and> isProcessing s \<and> pending_ok (recipients s) (poll_pending p))))"
proof (cases "polls s")
  case Nil
  then show ?thesis by (auto simp: sys_inv_def)
next
  case (Cons p ps)
  then show ?thesis by (cases ps) (auto simp: sys_inv_def)
qed

lemma pending_ok_Nil: "pending_ok rs []"
  by (simp add: pending_ok_def)

lemma finish_poll_fields [simp]:
  "recipients (finish_poll k s) = recipients s"
  "isProcessing (finish_poll k s) = False"
  "polls (finish_poll k s) = take k (polls s) @ drop (Suc k) (polls s)"
  by (simp_all add: finish_poll_def)

lemma set_poll_fields [simp]:
  "recipients (set_poll k p s) = recipients s"
  "isProcessing (set_poll k p s) = isProcessing s"
  "polls (set_poll k p s) = (polls s)[k := p]"
  by (simp_all add: set_poll_def)

lemma fail_one_recipients:
  "recipients (fail_one E c k r s) =
     markRecipientFailed (rid r)
       (provider_name k @ '' account '' @ account_email c @ '' is no longer connected.'')
       (clock E (world s)) (recipients s)"
  by (simp add: fail_one_def)

text \<open>The two ways a marked recipient leaves \<open>PENDING\<close>.\<close>

lemma marked_good:
  assumes ok: "store_ok rs" and p: "pending_ok rs (r # todo)"
      and rs': "rs' = markRecipientSent (rid r) m ts rs \<or> rs' = markRecipientFailed (rid r) m' ts' rs"
  shows "store_ok rs' \<and> pending_ok rs' todo \<and> allowed (status_by_id rs i) (status_by_id rs' i)"
proof -
  have pr: "status_by_id rs (rid r) = Some PENDING"
    using p by (simp add: pending_ok_def)
  from rs' show ?thesis
  proof
    assume e: "rs' = markRecipientSent (rid r) m ts rs"
    have "pending_ok rs' todo"
      by (rule pending_ok_tail[OF p]) (simp add: e status_by_id_sent)
    moreover have "allowed (status_by_id rs i) (status_by_id rs' i)"
      using pr by (simp add: e status_by_id_sent allowed_refl)
    ultimately show ?thesis using store_ok_sent[OF ok] e by simp
  next
    assume e: "rs' = markRecipientFailed (rid r) m' ts' rs"
    have "pending_ok rs' todo"
      by (rule pending_ok_tail[OF p]) (simp add: e status_by_id_failed)
    moreover have "allowed (status_by_id rs i) (status_by_id rs' i)"
      using pr by (simp add: e status_by_id_failed allowed_refl)
    ultimately show ?thesis using store_ok_failed[OF ok pr] e by simp
  qed
qed

lemma pending_ok_rest: "pending_ok rs (r # todo) \<Longrightarrow> pending_ok rs todo"
  by (simp add: pending_ok_def)

lemma turn_good:
  assumes ok: "store_ok rs" and p: "pending_ok rs (r # todo)"
      and rs': "rs' = rs \<or> (\<exists>m ts. rs' = markRecipientSent (rid r) m ts rs)
                \<or> (\<exists>m ts. rs' = markRecipientFailed (rid r) m ts rs)"
  shows "store_ok rs' \<and> pending_ok rs' todo \<and> allowed (status_by_id rs i) (status_by_id rs' i)"
proof -
  consider "rs' = rs" | m ts where "rs' = markRecipientSent (rid r) m ts rs"
    | m ts where "rs' = markRecipientFailed (rid r) m ts rs"
    using rs' by blast
  then show ?thesis
  proof cases
    case 1
    then show ?thesis using ok pending_ok_rest[OF p] by (simp add: allowed_refl)
  next
    case 2
    then show ?thesis using marked_good[OF ok p, of rs' m ts "[]" 0 i] by simp
  next
    case 3
    then show ?thesis using marked_good[OF ok p, of rs' None 0 m ts i] by simp
  qed
qed

text \<open>A pixel hit changes at most one recipient, which has been sent, to \<open>OPENED\<close>.\<close>

lemma handlePixelHit_store:
  "snd (handlePixelHit db ev req now rs) = rs
   \<or> (\<exists>r. r \<in> set rs \<and> sent_at r \<noteq> None
          \<and> snd (handlePixelHit db ev req now rs) = save (opened_once now r) rs)"
proof -
  let ?tok = "trim (req_token req)"
  let ?skip = "if forceTrack req then [] else if automated req then automated_reason req else []"
  let ?min = "if forceTrack req then 0 else getTrackingMinSecondsAfterSend ev"
  let ?opts = "\<lparr>minSecondsAfterSent = ?min, ignoreBeforeSent = True\<rparr>"
  show ?thesis
  proof (cases "?tok = [] \<or> \<not> db \<or> trim ?skip \<noteq> []")
    case True
    then show ?thesis by (auto simp: handlePixelHit_def processOpenTracking_def)
  next
    case False
    then have h: "handlePixelHit db ev req now rs = markOpenByToken ?tok ?opts now rs"
      by (simp add: handlePixelHit_def processOpenTracking_def)
    show ?thesis
    proof (cases "findOne (\<lambda>x. tracking_token x = trim ?tok) rs")
      case None
      then have "markOpenByToken ?tok ?opts now rs = (None, rs)"
        by (simp add: markOpenByToken_def Let_def)
      then show ?thesis unfolding h by simp
    next
      case (Some r)
      have tk: "trim ?tok \<noteq> []" using False by (simp add: trim_idem)
      have mem: "r \<in> set rs" using Some
        by (auto simp: findOne_def dest: find_Some_iff[THEN iffD1] nth_mem)
      show ?thesis
        unfolding h markOpenByToken_found[OF Some tk] using mem by auto
    qed
  qed
qed

lemma pixel_good:
  assumes ok: "store_ok rs"
  shows "store_ok (snd (handlePixelHit db ev req now rs))
       \<and> (pending_ok rs todo \<longrightarrow> pending_ok (snd (handlePixelHit db ev req now rs)) todo)
       \<and> allowed (status_by_id rs i) (status_by_id (snd (handlePixelHit db ev req now rs)) i)"
proof -
  from handlePixelHit_store[of db ev req now rs] show ?thesis
  proof
    assume "snd (handlePixelHit db ev req now rs) = rs"
    then show ?thesis using ok by (simp add: allowed_refl)
  next
    assume "\<exists>r. r \<in> set rs \<and> sent_at r \<noteq> None
          \<and> snd (handlePixelHit db ev req now rs) = save (opened_once now r) rs"
    then obtain r where r: "r \<in> set rs" "sent_at r \<noteq> None"
        "snd (handlePixelHit db ev req now rs) = save (opened_once now r) rs" by blast
    have d: "distinct (map rid rs)" using ok by (simp add: store_ok_def)
    have st: "status r = SENT \<or> status r = OPENED"
      using ok r(1,2) by (cases "status r") (auto simp: store_ok_def list_all_iff)
    have st': "status (opened_once now r) = OPENED"
      using st by (auto simp: opened_once_fields)
    have f: "status_by_id rs (rid r) = Some (status r)"
      using find_distinct_rid[OF d r(1)] by (simp add: status_by_id_def)
    have sb: "\<And>j. status_by_id (save (opened_once now r) rs) j
              = (if j = rid r then Some OPENED else status_by_id rs j)"
      using f st' by (simp add: status_by_id_save opened_once_fields)
    have a: "allowed (status_by_id rs i) (status_by_id (save (opened_once now r) rs) i)"
      using st f by (auto simp: sb allowed_refl)
    have p: "pending_ok rs todo \<longrightarrow> pending_ok (save (opened_once now r) rs) todo"
    proof
      assume po: "pending_ok rs todo"
      show "pending_ok (save (opened_once now r) rs) todo"
        by (rule pending_ok_mono[OF po]) (use st f in \<open>auto simp: sb\<close>)
    qed
    have s: "store_ok (save (opened_once now r) rs)"
      by (rule store_ok_save[OF ok]) (simp add: st')
    show ?thesis using a p s by (simp add: r(3))
  qed
qed

lemma enter_good:
  assumes "sys_inv s"
  shows "sys_inv (processDueCampaigns_enter E s)
       \<and> recipients (processDueCampaigns_enter E s) = recipients s"
  using assms
  by (auto simp: processDueCampaigns_enter_def sys_inv_cases pending_ok_Nil)

lemma sys_inv_one:
  "store_ok (recipients s) \<Longrightarrow> polls s = [p] \<Longrightarrow> isProcessing s
   \<Longrightarrow> pending_ok (recipients s) (poll_pending p) \<Longrightarrow> sys_inv s"
  by (simp add: sys_inv_cases)

lemma sys_inv_none:
  "store_ok (recipients s) \<Longrightarrow> polls s = [] \<Longrightarrow> \<not> isProcessing s \<Longrightarrow> sys_inv s"
  by (simp add: sys_inv_cases)

lemma advance_good:
  assumes ok: "store_ok (recipients s)" and ps: "polls s = [p]" and g: "isProcessing s"
      and po: "pending_ok (recipients s) (poll_pending p)"
  shows "sys_inv (advance E 0 p s)
       \<and> allowed (status_by_id (recipients s) i) (status_by_id (recipients (advance E 0 p s)) i)"
proof (cases p)
  case (AwaitDue now)
  show ?thesis
  proof (cases rule: await_store_cases[of E s "log [DueCampaignsRead]"])
    case (rejected e w)
    then show ?thesis unfolding AwaitDue using ok ps
      by (auto intro!: sys_inv_none simp: allowed_refl)
  next
    case (accepted w)
    then show ?thesis unfolding AwaitDue using ok ps g
      by (auto intro!: sys_inv_one simp: allowed_refl pending_ok_Nil)
  qed
next
  case (NextCampaign cs)
  show ?thesis
  proof (cases cs)
    case Nil
    show ?thesis unfolding NextCampaign Nil using ok ps
      by (auto intro!: sys_inv_none simp: allowed_refl)
  next
    case (Cons c cs')
    have d: "distinct (map rid (recipients s))" using ok by (simp add: store_ok_def)
    note sn = pending_ok_snapshot[OF d, of "cid c"]
    show ?thesis
    proof (cases rule: campaign_start_cases[of E s c])
      case (rejected e w)
      then show ?thesis unfolding NextCampaign Cons using ok ps
        by (auto intro!: sys_inv_none simp: allowed_refl)
    next
      case (stopped e w w0 w1)
      then show ?thesis unfolding NextCampaign Cons using ok ps
        by (auto intro!: sys_inv_none simp: allowed_refl)
    next
      case (disconnected w w0)
      then show ?thesis unfolding NextCampaign Cons using ok ps g sn
        by (auto intro!: sys_inv_one simp: allowed_refl)
    next
      case (connected account w w0)
      then show ?thesis unfolding NextCampaign Cons using ok ps g sn
        by (auto intro!: sys_inv_one simp: allowed_refl)
    qed
  qed
next
  case (Disconnected cs c k todo)
  show ?thesis
  proof (cases todo)
    case Nil
    show ?thesis
    proof (cases rule: finalize_call_cases[of E c s])
      case (rejected e w w1)
      then show ?thesis unfolding Disconnected Nil using ok ps
        by (auto intro!: sys_inv_none simp: allowed_refl)
    next
      case (accepted w)
      then show ?thesis unfolding Disconnected Nil using ok ps g
        by (auto intro!: sys_inv_one simp: allowed_refl pending_ok_Nil)
    qed
  next
    case (Cons r rest)
    have po': "pending_ok (recipients s) (r # rest)" using po by (simp add: Disconnected Cons)
    show ?thesis
    proof (cases rule: await_store_cases[of E s "fail_one E c k r"])
      case (rejected e w)
      then show ?thesis unfolding Disconnected Cons using ok ps
        by (auto intro!: sys_inv_none simp: allowed_refl)
    next
      case (accepted w)
      from marked_good[OF ok po', of "recipients (fail_one E c k r s)" None 0 _ _ i]
      have m: "store_ok (recipients (fail_one E c k r s))"
              "pending_ok (recipients (fail_one E c k r s)) rest"
              "allowed (status_by_id (recipients s) i) (status_by_id (recipients (fail_one E c k r s)) i)"
        by (auto simp: fail_one_recipients)
      show ?thesis unfolding Disconnected Cons using accepted m ps g
        by (auto intro!: sys_inv_one)
    qed
  qed
next
  case (Sending cs c k account todo lt)
  show ?thesis
  proof (cases todo)
    case Nil
    show ?thesis
    proof (cases rule: persist_call_cases[where k=k and E=E and a=account and t=lt and s=s])
      case (rejected e w)
      then show ?thesis unfolding Sending Nil using ok ps
        by (auto intro!: sys_inv_none simp: allowed_refl)
    next
      case (accepted w)
      let ?s1 = "(persist_tokens k account lt s)\<lparr>world := w\<rparr>"
      show ?thesis
      proof (cases rule: finalize_call_cases[of E c ?s1])
        case (rejected e w' w1)
        then show ?thesis unfolding Sending Nil using accepted ok ps
          by (auto intro!: sys_inv_none simp: allowed_refl)
      next
        case a2: (accepted w')
        then show ?thesis unfolding Sending Nil using accepted ok ps g
          by (auto intro!: sys_inv_one simp: allowed_refl pending_ok_Nil)
      qed
    next
      case skipped
      show ?thesis
      proof (cases rule: finalize_call_cases[of E c s])
        case (rejected e w' w1)
        then show ?thesis unfolding Sending Nil using skipped ok ps
          by (auto intro!: sys_inv_none simp: allowed_refl)
      next
        case a2: (accepted w')
        then show ?thesis unfolding Sending Nil using skipped ok ps g
          by (auto intro!: sys_inv_one simp: allowed_refl pending_ok_Nil)
      qed
    qed
  next
    case (Cons r rest)
    obtain res s1 where o: "send_one E c k account r (lt, s) = (res, s1)"
      by (cases "send_one E c k account r (lt, s)")
    have po': "pending_ok (recipients s) (r # rest)" using po by (simp add: Sending Cons)
    have fr: "isProcessing s1 = isProcessing s" "polls s1 = polls s"
      using send_one_frame(1,2)[of E c k account r lt s] by (simp_all add: o)
    have "recipients s1 = recipients s
          \<or> (\<exists>m ts. recipients s1 = markRecipientSent (rid r) m ts (recipients s))
          \<or> (\<exists>m ts. recipients s1 = markRecipientFailed (rid r) m ts (recipients s))"
      using send_one_recipients[of E c k account r lt s] by (simp add: o)
    from turn_good[OF ok po' this, of i]
    have m: "store_ok (recipients s1)" "pending_ok (recipients s1) rest"
            "allowed (status_by_id (recipients s) i) (status_by_id (recipients s1) i)"
      by simp_all
    show ?thesis
    proof (cases res)
      case (Inl e)
      then show ?thesis unfolding Sending Cons using o m fr ps
        by (auto intro!: sys_inv_none)
    next
      case (Inr t)
      then show ?thesis unfolding Sending Cons using o m fr ps g
        by (auto intro!: sys_inv_one)
    qed
  qed
qed

lemma step_good:
  assumes "sys_inv s"
  shows "sys_inv (step E a s)
       \<and> allowed (status_by_id (recipients s) i) (status_by_id (recipients (step E a s)) i)"
proof (cases a)
  case Poll
  then show ?thesis using enter_good[OF assms, of E] by (simp add: allowed_refl)
next
  case (Advance k)
  show ?thesis
  proof (cases "k < length (polls s)")
    case False
    then show ?thesis using assms by (simp add: Advance allowed_refl)
  next
    case True
    with assms obtain p where p: "polls s = [p]" "k = 0" "isProcessing s"
        "pending_ok (recipients s) (poll_pending p)" "store_ok (recipients s)"
      by (auto simp: sys_inv_cases)
    from advance_good[OF p(5) p(1) p(3) p(4), of E i] show ?thesis
      by (simp add: Advance p)
  qed
next
  case (Pixel req ev)
  let ?rs' = "snd (handlePixelHit (db_up E (world s)) ev req (clock E (world s)) (recipients s))"
  have ok: "store_ok (recipients s)" using assms by (simp add: sys_inv_cases)
  note pg = pixel_good[OF ok, of "db_up E (world s)" ev req "clock E (world s)"]
  have r: "recipients (step E a s) = ?rs'" "polls (step E a s) = polls s"
          "isProcessing (step E a s) = isProcessing s"
    by (simp_all add: Pixel pixel_hit_def)
  have "sys_inv (step E a s)"
    using assms pg unfolding sys_inv_cases r by blast
  then show ?thesis using pg[of _ i] by (simp add: r)
next
  case (SendNow j)
  have "sys_inv (s\<lparr>campaigns := queueCampaignNow j (campaigns s)\<rparr>)"
    using assms by (simp add: sys_inv_cases)
  from enter_good[OF this, of E] show ?thesis
    using assms by (simp add: SendNow send_now_def allowed_refl)
next
  case (Surroundings w)
  then show ?thesis using assms by (simp add: sys_inv_cases allowed_refl)
qed

lemma run_Nil: "run E [] s = s"
  by (simp add: run_def)

lemma run_snoc: "run E (acts @ [a]) s = step E a (run E acts s)"
  by (simp add: run_def)

lemma run_append: "run E (acts @ later) s = run E later (run E acts s)"
  by (simp add: run_def)

lemma initial_sys_inv: "initial s \<Longrightarrow> sys_inv s"
  by (auto simp: initial_def sys_inv_cases store_ok_def list_all_iff)

lemma run_sys_inv: "sys_inv s \<Longrightarrow> sys_inv (run E acts s)"
proof (induction acts rule: rev_induct)
  case Nil
  then show ?case by (simp add: run_Nil)
next
  case (snoc a acts)
  then show ?case using step_good[of "run E acts s" E a] by (simp add: run_snoc)
qed

lemma allowed_final:
  "allowed (Some OPENED) y \<Longrightarrow> y = Some OPENED"
  "allowed (Some FAILED) y \<Longrightarrow> y = Some FAILED"
  by simp_all

lemma run_keeps:
  assumes "sys_inv s" and "st = OPENED \<or> st = FAILED"
      and "status_by_id (recipients s) i = Some st"
  shows "status_by_id (recipients (run E later s)) i = Some st"
  using assms(3)
proof (induction later rule: rev_induct)
  case Nil
  then show ?case by (simp add: run_Nil)
next
  case (snoc a later)
  have "sys_inv (run E later s)" by (rule run_sys_inv[OF assms(1)])
  from step_good[OF this, where E=E and a=a and i=i] snoc assms(2)
  show ?case by (auto simp: run_snoc dest: allowed_final)
qed

text \<open>
  C1. Start from a store whose recipients are as created, and let polls, resumptions of
  polls, pixel requests, send-now requests and changes of the surroundings follow one
  another in any order; \<open>markRecipientSent\<close> and \<open>markRecipientFailed\<close> run where the
  runner's loops call them, \<open>markOpenByToken\<close> where the pixel handler calls it, with
  \<open>ignoreBeforeSent\<close> set. Every step leaves the status of every recipient unchanged or takes
  it from \<open>PENDING\<close> to \<open>SENT\<close>, from \<open>PENDING\<close> to \<open>FAILED\<close> or from \<open>SENT\<close> to
  \<open>OPENED\<close>; a recipient that is \<open>OPENED\<close> stays \<open>OPENED\<close> and one that is \<open>FAILED\<close> stays
  \<open>FAILED\<close> (so never becomes \<open>SENT\<close>) whatever follows.
\<close>

theorem C1_status_transitions:
  assumes init: "initial s0"
  shows "allowed (status_by_id (recipients (run E acts s0)) i)
                 (status_by_id (recipients (step E a (run E acts s0))) i)
       \<and> (status_by_id (recipients (run E acts s0)) i = Some OPENED
            \<longrightarrow> status_by_id (recipients (run E (acts @ later) s0)) i = Some OPENED)
       \<and> (status_by_id (recipients (run E acts s0)) i = Some FAILED
            \<longrightarrow> status_by_id (recipients (run E (acts @ later) s0)) i = Some FAILED
              \<and> status_by_id (recipients (run E (acts @ later) s0)) i \<noteq> Some SENT)"
proof -
  have i: "sys_inv (run E acts s0)"
    by (rule run_sys_inv[OF initial_sys_inv[OF init]])
  have a: "allowed (status_by_id (recipients (run E acts s0)) i)
                 (status_by_id (recipients (step E a (run E acts s0))) i)"
    using step_good[OF i, where E=E and a=a and i=i] by simp
  have o: "status_by_id (recipients (run E acts s0)) i = Some OPENED
            \<longrightarrow> status_by_id (recipients (run E (acts @ later) s0)) i = Some OPENED"
    using run_keeps[OF i, where st=OPENED and i=i and E=E and later=later] by (simp add: run_append)
  have f: "status_by_id (recipients (run E acts s0)) i = Some FAILED
            \<longrightarrow> status_by_id (recipients (run E (acts @ later) s0)) i = Some FAILED"
    using run_keeps[OF i, where st=FAILED and i=i and E=E and later=later] by (simp add: run_append)
  show ?thesis using a o f by simp
qed

lemma example_initial: "initial example_sys"
  by (simp add: initial_def example_sys_def fresh_recipient_def)

lemmas example_defs =
  run_def processDueCampaigns_enter_def set_poll_def finish_poll_def getDueCampaigns_def
  pixel_hit_def handlePixelHit_def processOpenTracking_def forceTrack_def
  markOpenByToken_def save_def status_by_id_def runner_defs

lemma example_schedule:
  "map status (recipients (run example_env
      [Poll, Advance 0, Advance 0, Advance 0,
       Pixel \<lparr>req_token = ''t1'', force_track = ''1'', automated = False, automated_reason = []\<rparr> None,
       Advance 0, Advance 0] example_sys))
   = [OPENED, FAILED, SENT]"
  by (simp add: example_defs)

theorem C1_witness:
  "initial example_sys
   \<and> status_by_id (recipients (run example_env [Poll, Advance 0, Advance 0] example_sys)) 1 = Some PENDING
   \<and> status_by_id (recipients (step example_env (Advance 0)
         (run example_env [Poll, Advance 0, Advance 0] example_sys))) 1 = Some SENT
   \<and> allowed (status_by_id (recipients (run example_env [Poll, Advance 0, Advance 0] example_sys)) 1)
        (status_by_id (recipients (step example_env (Advance 0)
           (run example_env [Poll, Advance 0, Advance 0] example_sys))) 1)"
proof -
  have a: "status_by_id (recipients (run example_env [Poll, Advance 0, Advance 0] example_sys)) 1 = Some PENDING"
    by (simp add: example_defs)
  have b: "status_by_id (recipients (step example_env (Advance 0)
         (run example_env [Poll, Advance 0, Advance 0] example_sys))) 1 = Some SENT"
    by (simp add: example_defs)
  show ?thesis
    using C1_status_transitions [OF example_initial, of example_env "[Poll, Advance 0, Advance 0]" 1 "Advance 0" "[]"]
      example_initial a b
    by simp
qed

subsection \<open>The guard\<close>

lemma guard_one: "polls s = [p] \<Longrightarrow> isProcessing s \<Longrightarrow> guard_ok s"
  by (simp add: guard_ok_def)

lemma guard_none: "polls s = [] \<Longrightarrow> \<not> isProcessing s \<Longrightarrow> guard_ok s"
  by (simp add: guard_ok_def)

lemma guard_cases:
  "guard_ok s = ((polls s = [] \<and> \<not> isProcessing s) \<or> (\<exists>p. polls s = [p] \<and> isProcessing s))"
proof (cases "polls s")
  case Nil
  then show ?thesis by (auto simp: guard_ok_def)
next
  case (Cons p ps)
  then show ?thesis by (cases ps) (auto simp: guard_ok_def)
qed

lemma enter_guard: "guard_ok s \<Longrightarrow> guard_ok (processDueCampaigns_enter E s)"
  by (auto simp: processDueCampaigns_enter_def guard_cases)

lemma advance_guard:
  assumes ps: "polls s = [p]" and g: "isProcessing s"
  shows "guard_ok (advance E 0 p s)"
proof (cases p)
  case (AwaitDue now)
  show ?thesis unfolding AwaitDue using ps g
    by (cases rule: await_store_cases[of E s "log [DueCampaignsRead]"])
       (auto intro: guard_one guard_none)
next
  case (NextCampaign cs)
  show ?thesis
  proof (cases cs)
    case Nil
    show ?thesis unfolding NextCampaign Nil using ps by (auto intro: guard_none)
  next
    case (Cons c cs')
    show ?thesis unfolding NextCampaign Cons using ps g
      by (cases rule: campaign_start_cases[of E s c]) (auto intro: guard_one guard_none)
  qed
next
  case (Disconnected cs c k todo)
  show ?thesis
  proof (cases todo)
    case Nil
    show ?thesis unfolding Disconnected Nil using ps g
      by (cases rule: finalize_call_cases[of E c s]) (auto intro: guard_one guard_none)
  next
    case (Cons r rest)
    show ?thesis unfolding Disconnected Cons using ps g
      by (cases rule: await_store_cases[of E s "fail_one E c k r"]) (auto intro: guard_one guard_none)
  qed
next
  case (Sending cs c k account todo lt)
  show ?thesis
  proof (cases todo)
    case Nil
    show ?thesis
    proof (cases rule: persist_call_cases[where k=k and E=E and a=account and t=lt and s=s])
      case (rejected e w)
      then show ?thesis unfolding Sending Nil using ps by (auto intro: guard_none)
    next
      case (accepted w)
      then show ?thesis unfolding Sending Nil using ps g
        by (cases rule: finalize_call_cases[of E c "(persist_tokens k account lt s)\<lparr>world := w\<rparr>"])
           (auto intro: guard_one guard_none)
    next
      case skipped
      then show ?thesis unfolding Sending Nil using ps g
        by (cases rule: finalize_call_cases[of E c s]) (auto intro: guard_one guard_none)
    qed
  next
    case (Cons r rest)
    obtain res s1 where o: "send_one E c k account r (lt, s) = (res, s1)"
      by (cases "send_one E c k account r (lt, s)")
    have fr: "isProcessing s1 = isProcessing s" "polls s1 = polls s"
      using send_one_frame(1,2)[of E c k account r lt s] by (simp_all add: o)
    show ?thesis unfolding Sending Cons using o fr ps g
      by (cases res) (auto intro: guard_one guard_none)
  qed
qed

lemma step_guard:
  assumes "guard_ok s"
  shows "guard_ok (step E a s)"
proof (cases a)
  case Poll
  then show ?thesis using enter_guard[OF assms] by simp
next
  case (Advance k)
  show ?thesis
  proof (cases "k < length (polls s)")
    case False
    then show ?thesis using assms by (simp add: Advance)
  next
    case True
    with assms obtain p where p: "polls s = [p]" "k = 0" "isProcessing s"
      by (auto simp: guard_cases)
    from advance_guard[OF p(1) p(3)] show ?thesis by (simp add: Advance p)
  qed
next
  case (Pixel req ev)
  then show ?thesis using assms by (simp add: pixel_hit_def guard_ok_def)
next
  case (SendNow j)
  have "guard_ok (s\<lparr>campaigns := queueCampaignNow j (campaigns s)\<rparr>)"
    using assms by (simp add: guard_ok_def)
  from enter_guard[OF this] show ?thesis using assms by (simp add: SendNow send_now_def)
next
  case (Surroundings w)
  then show ?thesis using assms by (simp add: guard_ok_def)
qed

lemma run_guard: "guard_ok s \<Longrightarrow> guard_ok (run E acts s)"
proof (induction acts rule: rev_induct)
  case Nil
  then show ?case by (simp add: run_Nil)
next
  case (snoc a acts)
  then show ?case using step_guard[of "run E acts s"] by (simp add: run_snoc)
qed

text \<open>
  C6. From a start with no poll in flight and the guard clear, whatever steps follow: at
  most one poll is in flight, and the guard \<open>isProcessing\<close> is set exactly while one is, so
  it is clear as soon as the poll has ended, by reaching the end of its campaigns or by a
  rejected store call. A call of \<open>processDueCampaigns\<close> while the guard is set changes
  nothing: no poll is added, nothing is read or sent, the trace is as before.
\<close>

theorem C6_one_poll_in_flight:
  assumes start: "polls s0 = []" "\<not> isProcessing s0"
  shows "length (polls (run E acts s0)) \<le> 1
       \<and> isProcessing (run E acts s0) = (polls (run E acts s0) \<noteq> [])
       \<and> (isProcessing (run E acts s0) \<longrightarrow> step E Poll (run E acts s0) = run E acts s0)
       \<and> (polls (step E (Advance k) (run E acts s0)) = []
            \<longrightarrow> \<not> isProcessing (step E (Advance k) (run E acts s0)))"
proof -
  have g: "guard_ok (run E acts s0)"
    by (rule run_guard) (simp add: guard_ok_def start)
  have g': "guard_ok (step E (Advance k) (run E acts s0))"
    by (rule step_guard[OF g])
  show ?thesis
    using g g' by (auto simp: guard_ok_def processDueCampaigns_enter_def)
qed

theorem C6_witness:
  "isProcessing (run example_env [Poll, Advance 0] example_sys)
   \<and> step example_env Poll (run example_env [Poll, Advance 0] example_sys)
       = run example_env [Poll, Advance 0] example_sys
   \<and> polls (step example_env (Advance 0) (run example_env [Poll, Advance 0, Advance 0, Advance 0,
         Advance 0, Advance 0, Advance 0] example_sys)) = []
   \<and> \<not> isProcessing (step example_env (Advance 0) (run example_env [Poll, Advance 0, Advance 0,
         Advance 0, Advance 0, Advance 0, Advance 0] example_sys))"
proof -
  have h1: "polls example_sys = []" by (simp add: example_sys_def)
  have h2: "\<not> isProcessing example_sys" by (simp add: example_sys_def)
  have a: "isProcessing (run example_env [Poll, Advance 0] example_sys)"
    by (simp add: example_defs)
  have b: "polls (step example_env (Advance 0) (run example_env [Poll, Advance 0, Advance 0, Advance 0,
         Advance 0, Advance 0, Advance 0] example_sys)) = []"
    by (simp add: example_defs)
  show ?thesis
    using C6_one_poll_in_flight [OF h1 h2, of example_env "[Poll, Advance 0]" 0]
          C6_one_poll_in_flight [OF h1 h2, of example_env "[Poll, Advance 0, Advance 0, Advance 0,
         Advance 0, Advance 0, Advance 0]" 0] a b
    by simp
qed

subsection \<open>The PKCE state store\<close>

lemma prune_None: "m k = None \<Longrightarrow> pruneExpiredPkceStates now m k = None"
  by (simp add: pruneExpiredPkceStates_def)

lemma consume_deletes: "trim state \<noteq> [] \<Longrightarrow> snd (consumePkceState now state m) (trim state) = None"
  by (simp add: consumePkceState_def Let_def split: option.splits)

lemma consume_keeps_None: "m k = None \<Longrightarrow> snd (consumePkceState now state m) k = None"
  by (simp add: consumePkceState_def Let_def prune_None split: option.splits)

lemma consume_absent: "m (trim state) = None \<Longrightarrow> fst (consumePkceState now state m) = None"
  by (simp add: consumePkceState_def Let_def prune_None)

lemma consume_empty_key: "trim state = [] \<Longrightarrow> fst (consumePkceState now state m) = None"
  by (simp add: consumePkceState_def Let_def)

lemma consume_twice:
  "fst (consumePkceState now2 state (snd (consumePkceState now1 state m))) = None"
proof (cases "trim state = []")
  case True
  then show ?thesis by (rule consume_empty_key)
next
  case False
  show ?thesis by (rule consume_absent) (rule consume_deletes[OF False])
qed

lemma save_other_None: "m k = None \<Longrightarrow> state \<noteq> k \<Longrightarrow> savePkceState now state v m k = None"
  by (simp add: savePkceState_def prune_None)

lemma pkce_run_absent:
  "m k = None \<Longrightarrow> list_all (\<lambda>op. \<not> saves_state k op) ops \<Longrightarrow> list_all (\<lambda>r. r = None) (pkce_run k ops m)"
proof (induction k ops m rule: pkce_run.induct)
  case (1 k m)
  then show ?case by simp
next
  case (2 k now state verifier ops m)
  then show ?case by (simp add: save_other_None)
next
  case (3 k now state ops m)
  then show ?case by (simp add: Let_def consume_keeps_None consume_absent)
qed

lemma pkce_run_once:
  "list_all (\<lambda>op. \<not> saves_state k op) ops \<Longrightarrow> length (filter (\<lambda>r. r \<noteq> None) (pkce_run k ops m)) \<le> 1"
proof (induction k ops m rule: pkce_run.induct)
  case (1 k m)
  then show ?case by simp
next
  case (2 k now state verifier ops m)
  then show ?case by simp
next
  case (3 k now state ops m)
  show ?case
  proof (cases "trim state = k")
    case False
    then show ?thesis using 3 by (simp add: Let_def)
  next
    case True
    have "snd (consumePkceState now state m) k = None \<or> k = []"
    proof (cases "k = []")
      case False
      then have "trim state \<noteq> []" using True by simp
      from consume_deletes[OF this] show ?thesis using True by simp
    qed simp
    then show ?thesis
    proof
      assume n: "snd (consumePkceState now state m) k = None"
      have na: "list_all (\<lambda>op. \<not> saves_state k op) ops" using 3(3) by simp
      from pkce_run_absent[where m="snd (consumePkceState now state m)" and k=k and ops=ops, OF n na]
      have "filter (\<lambda>r. r \<noteq> None) (pkce_run k ops (snd (consumePkceState now state m))) = []"
        by (auto simp: list_all_iff filter_empty_conv)
      then show ?thesis using True by (simp add: Let_def)
    next
      assume e: "k = []"
      then have "fst (consumePkceState now state m) = None"
        using True by (simp add: consume_empty_key)
      then show ?thesis using 3 True by (simp add: Let_def)
    qed
  qed
qed

lemma exchange_snd:
  "snd (exchangeCodeForUser up now code state m) = snd (consumePkceState now state m)"
  by (cases "consumePkceState now state m")
     (simp add: exchangeCodeForUser_def split: option.splits sum.splits)

lemma exchange_expired:
  "fst (consumePkceState now state m) = None
   \<Longrightarrow> fst (exchangeCodeForUser up now code state m) = Inl SessionExpired"
  by (cases "consumePkceState now state m") (simp add: exchangeCodeForUser_def)

lemma exchange_found:
  "fst (consumePkceState now state m) = Some verifier
   \<Longrightarrow> fst (exchangeCodeForUser up now code state m)
       = (case up (trim code) verifier of Inl msg \<Rightarrow> Inl (Upstream msg) | Inr user \<Rightarrow> Inr user)"
  by (cases "consumePkceState now state m") (simp add: exchangeCodeForUser_def split: sum.splits)

lemma consume_fresh:
  assumes "trim state = state" "state \<noteq> []" "trim v \<noteq> []" "now < t0 + PKCE_STATE_TTL_MS"
  shows "fst (consumePkceState now state (savePkceState t0 state v m)) = Some (trim v)"
  using assms
  by (simp add: consumePkceState_def savePkceState_def pruneExpiredPkceStates_def Let_def)

text \<open>
  C10. A PKCE state is used once. A lookup removes the entry stored under the (trimmed)
  state, whatever it returns; the next lookup of the same state returns nothing, at any
  time, and so does every later one as long as the state is not saved again: in a history
  that does not save a state, at most one lookup of it returns a verifier. A second
  \<open>exchangeCodeForUser\<close> with the same state therefore fails with the session-expired
  error, whatever the first one did and however soon it comes. The first lookup of a saved
  state within the TTL does return the verifier.
\<close>

theorem C10_pkce_single_use:
  "(trim state \<noteq> [] \<longrightarrow> snd (consumePkceState now1 state m) (trim state) = None)
   \<and> fst (consumePkceState now2 state (snd (consumePkceState now1 state m))) = None
   \<and> fst (exchangeCodeForUser up2 now2 code2 state
            (snd (exchangeCodeForUser up1 now1 code1 state m))) = Inl SessionExpired
   \<and> (list_all (\<lambda>op. \<not> saves_state k op) ops
        \<longrightarrow> length (filter (\<lambda>r. r \<noteq> None) (pkce_run k ops m)) \<le> 1)
   \<and> (trim state = state \<and> state \<noteq> [] \<and> trim v \<noteq> [] \<and> now1 < t0 + PKCE_STATE_TTL_MS
        \<longrightarrow> fst (consumePkceState now1 state (savePkceState t0 state v m)) = Some (trim v))"
proof -
  have r: "fst (exchangeCodeForUser up2 now2 code2 state
            (snd (exchangeCodeForUser up1 now1 code1 state m))) = Inl SessionExpired"
    unfolding exchange_snd by (rule exchange_expired) (rule consume_twice)
  show ?thesis
    using r consume_deletes[of state now1 m] consume_twice[of now2 state now1 m]
      pkce_run_once[of k ops m] consume_fresh[of state v now1 t0 m]
    by blast
qed

theorem C10_witness:
  "fst (exchangeCodeForUser (\<lambda>code verifier. Inr (code @ ''/'' @ verifier)) 1000 ''c0de'' ''abc123''
          (savePkceState 0 ''abc123'' ''ver1f1er'' Map.empty)) = Inr ''c0de/ver1f1er''
   \<and> fst (exchangeCodeForUser (\<lambda>code verifier. Inr (code @ ''/'' @ verifier)) 2000 ''c0de'' ''abc123''
          (snd (exchangeCodeForUser (\<lambda>code verifier. Inr (code @ ''/'' @ verifier)) 1000 ''c0de'' ''abc123''
             (savePkceState 0 ''abc123'' ''ver1f1er'' Map.empty)))) = Inl SessionExpired
   \<and> length (filter (\<lambda>r. r \<noteq> None)
        (pkce_run ''abc123'' [(1000, ConsumeState ''abc123''), (1500, ConsumeState ''zzz''),
                              (2000, ConsumeState '' abc123'')]
           (savePkceState 0 ''abc123'' ''ver1f1er'' Map.empty))) \<le> 1"
proof -
  let ?up = "\<lambda>code verifier. Inr (code @ ''/'' @ verifier) :: string + string"
  let ?m = "savePkceState 0 ''abc123'' ''ver1f1er'' Map.empty"
  have t: "trim ''abc123'' = ''abc123''" "trim ''ver1f1er'' = ''ver1f1er''" "trim ''c0de'' = ''c0de''"
    by (simp_all add: trim_def is_js_space_def)
  have h: "list_all (\<lambda>op. \<not> saves_state ''abc123'' op)
             [(1000, ConsumeState ''abc123''), (1500, ConsumeState ''zzz''), (2000, ConsumeState '' abc123'')]"
    by simp
  have ttl: "(1000::int) < 0 + PKCE_STATE_TTL_MS" by (simp add: PKCE_STATE_TTL_MS_def)
  note th = C10_pkce_single_use [of "''abc123''" 1000 ?m 2000 ?up "''c0de''" ?up "''c0de''" "''abc123''"
       "[(1000, ConsumeState ''abc123''), (1500, ConsumeState ''zzz''), (2000, ConsumeState '' abc123'')]"
       "''ver1f1er''" 0]
  have c1: "fst (consumePkceState 1000 ''abc123'' ?m) = Some ''ver1f1er''"
    by (simp add: consumePkceState_def savePkceState_def pruneExpiredPkceStates_def Let_def t
          PKCE_STATE_TTL_MS_def)
  have a: "fst (exchangeCodeForUser ?up 1000 ''c0de'' ''abc123'' ?m) = Inr ''c0de/ver1f1er''"
    by (simp add: exchange_found[OF c1] t)
  show ?thesis using th h a by simp
qed

subsection \<open>Sending through Microsoft Graph\<close>

lemma send_mail_eq:
  "sendMailWithToken G w (access_token a) toEmail = (res, w1)
   \<Longrightarrow> send_mail G toEmail a (w, tr) = (res, w1, tr @ [SendMail (access_token a)])"
  by (simp add: send_mail_def)

lemma refresh_missing:
  "trim (or_str (refresh_token t) []) = []
   \<Longrightarrow> refreshMicrosoftTokens G t st
       = (Inl ''Microsoft account is missing refresh token. Reconnect the account.'', st)"
  by (simp add: refreshMicrosoftTokens_def)

lemma refresh_failed:
  "trim (or_str (refresh_token t) []) \<noteq> []
   \<Longrightarrow> requestMicrosoftToken G w (trim (or_str (refresh_token t) [])) = (Inl e, w1)
   \<Longrightarrow> refreshMicrosoftTokens G t (w, tr)
       = (Inl e, w1, tr @ [TokenRequest (trim (or_str (refresh_token t) []))])"
  by (simp add: refreshMicrosoftTokens_def)

lemma refresh_ok:
  "trim (or_str (refresh_token t) []) \<noteq> []
   \<Longrightarrow> requestMicrosoftToken G w (trim (or_str (refresh_token t) [])) = (Inr payload, w1)
   \<Longrightarrow> refreshMicrosoftTokens G t (w, tr)
       = (Inr (refreshed_tokens (graph_now G w1) payload t), w1,
          tr @ [TokenRequest (trim (or_str (refresh_token t) []))])"
  by (simp add: refreshMicrosoftTokens_def refreshed_tokens_def Let_def)

lemma refreshed_access:
  "access_token (refreshed_tokens now payload t) = spread (access_token t) (access_token payload)"
  by (simp add: refreshed_tokens_def normalizeTokenPayload_def Let_def)

lemma truthy_trim: "trim (or_str x []) \<noteq> [] \<Longrightarrow> truthy x"
  by (cases x) (auto simp: trim_Nil)

lemma refresh_shape:
  "\<exists>res w1 evs. refreshMicrosoftTokens G t (w, tr) = (res, w1, tr @ evs)
      \<and> (evs = [] \<or> (\<exists>r. evs = [TokenRequest r]))"
proof (cases "trim (or_str (refresh_token t) []) = []")
  case True
  then show ?thesis by (simp add: refresh_missing)
next
  case False
  obtain res w1 where o: "requestMicrosoftToken G w (trim (or_str (refresh_token t) [])) = (res, w1)"
    by (cases "requestMicrosoftToken G w (trim (or_str (refresh_token t) []))")
  show ?thesis
  proof (cases res)
    case (Inl e)
    then show ?thesis using refresh_failed[OF False, of G w e w1 tr] o by simp
  next
    case (Inr payload)
    then show ?thesis using refresh_ok[OF False, of G w payload w1 tr] o by simp
  qed
qed

text \<open>The \<open>try\<close> and the \<open>catch\<close>, case by case.\<close>

lemma retry_sent:
  assumes f: "sendMailWithToken G w (access_token a) toEmail = (Inr u, w1)"
  shows "send_with_retry G toEmail a (w, tr) = (Inr (None, a), w1, tr @ [SendMail (access_token a)])"
  by (simp add: send_with_retry_def send_mail_eq[OF f])

lemma retry_plain:
  assumes f: "sendMailWithToken G w (access_token a) toEmail = (Inl msg, w1)"
      and n: "\<not> looksLikeTokenIssue msg \<or> \<not> truthy (refresh_token a)"
  shows "send_with_retry G toEmail a (w, tr) = (Inl msg, w1, tr @ [SendMail (access_token a)])"
  using n by (auto simp: send_with_retry_def send_mail_eq[OF f])

lemma retry_blank:
  assumes f: "sendMailWithToken G w (access_token a) toEmail = (Inl msg, w1)"
      and l: "looksLikeTokenIssue msg" and t: "truthy (refresh_token a)"
      and r: "trim (or_str (refresh_token a) []) = []"
  shows "send_with_retry G toEmail a (w, tr)
           = (Inl ''Microsoft account is missing refresh token. Reconnect the account.'', w1,
              tr @ [SendMail (access_token a)])"
  using l t by (simp add: send_with_retry_def send_mail_eq[OF f] refresh_missing[OF r])

lemma retry_refresh_failed:
  assumes f: "sendMailWithToken G w (access_token a) toEmail = (Inl msg, w1)"
      and l: "looksLikeTokenIssue msg"
      and r: "trim (or_str (refresh_token a) []) \<noteq> []"
      and q: "requestMicrosoftToken G w1 (trim (or_str (refresh_token a) [])) = (Inl e, w2)"
  shows "send_with_retry G toEmail a (w, tr)
           = (Inl e, w2, tr @ [SendMail (access_token a), TokenRequest (trim (or_str (refresh_token a) []))])"
  using l truthy_trim[OF r]
  by (simp add: send_with_retry_def send_mail_eq[OF f] refresh_failed[OF r q])

lemma retry_once:
  assumes f: "sendMailWithToken G w (access_token a) toEmail = (Inl msg, w1)"
      and l: "looksLikeTokenIssue msg"
      and r: "trim (or_str (refresh_token a) []) \<noteq> []"
      and q: "requestMicrosoftToken G w1 (trim (or_str (refresh_token a) [])) = (Inr payload, w2)"
      and s: "sendMailWithToken G w2 (access_token (refreshed_tokens (graph_now G w2) payload a)) toEmail = (res2, w3)"
  shows "send_with_retry G toEmail a (w, tr)
           = (case res2 of Inl msg2 \<Rightarrow> Inl msg2
                | Inr u \<Rightarrow> Inr (None, refreshed_tokens (graph_now G w2) payload a), w3,
              tr @ [SendMail (access_token a), TokenRequest (trim (or_str (refresh_token a) [])),
                    SendMail (access_token (refreshed_tokens (graph_now G w2) payload a))])"
  using l truthy_trim[OF r]
  by (cases res2)
     (simp_all add: send_with_retry_def send_mail_eq[OF f]
        refresh_ok[OF r q, of "tr @ [SendMail (access_token a)]"] send_mail_eq[OF s])

lemma retry_bound:
  "\<exists>res w' evs. send_with_retry G toEmail a (w, tr) = (res, w', tr @ evs)
      \<and> length (filter is_send evs) \<le> 2 \<and> length (filter is_refresh evs) \<le> 1
      \<and> evs \<noteq> [] \<and> hd evs = SendMail (access_token a)"
proof -
  obtain r1 w1 where f: "sendMailWithToken G w (access_token a) toEmail = (r1, w1)"
    by (cases "sendMailWithToken G w (access_token a) toEmail")
  show ?thesis
  proof (cases r1)
    case (Inr u)
    then show ?thesis using retry_sent[OF f[unfolded Inr], of tr] by simp
  next
    case (Inl msg)
    note f' = f[unfolded Inl]
    show ?thesis
    proof (cases "\<not> looksLikeTokenIssue msg \<or> \<not> truthy (refresh_token a)")
      case True
      then show ?thesis by (simp add: retry_plain[OF f' True])
    next
      case False
      from refresh_shape[of G a w1 "tr @ [SendMail (access_token a)]"] obtain r2 w2 evs where
        e: "refreshMicrosoftTokens G a (w1, tr @ [SendMail (access_token a)])
              = (r2, w2, (tr @ [SendMail (access_token a)]) @ evs)"
           "evs = [] \<or> (\<exists>r. evs = [TokenRequest r])" by blast
      show ?thesis
      proof (cases r2)
        case (Inl e2)
        then show ?thesis using False e
          by (auto simp: send_with_retry_def send_mail_eq[OF f'])
      next
        case (Inr t')
        obtain r3 w3 where s: "sendMailWithToken G w2 (access_token t') toEmail = (r3, w3)"
          by (cases "sendMailWithToken G w2 (access_token t') toEmail")
        show ?thesis using False e Inr
          by (cases r3) (auto simp: send_with_retry_def send_mail_eq[OF f'] send_mail_eq[OF s])
      qed
    qed
  qed
qed

lemma willExpireSoon_iff:
  "expires_at t = Some e \<Longrightarrow> e \<noteq> 0 \<Longrightarrow> willExpireSoon now t = (e \<le> now + 60 * 1000)"
  by (simp add: willExpireSoon_def)

lemma willExpireSoon_unset:
  "expires_at t = None \<or> expires_at t = Some 0 \<Longrightarrow> \<not> willExpireSoon now t"
  by (auto simp: willExpireSoon_def)

text \<open>The refresh before the send, case by case.\<close>

lemma refresh_impossible:
  assumes p: "\<not> truthy (access_token t) \<or> willExpireSoon (graph_now G w) t"
      and r: "trim (or_str (refresh_token t) []) = []"
  shows "sendMicrosoftEmail G toEmail t (w, tr)
           = (Inl ''Microsoft account is missing refresh token. Reconnect the account.'', w, tr)"
  using p by (auto simp: sendMicrosoftEmail_def refresh_missing[OF r])

lemma refresh_refused:
  assumes p: "\<not> truthy (access_token t) \<or> willExpireSoon (graph_now G w) t"
      and r: "trim (or_str (refresh_token t) []) \<noteq> []"
      and q: "requestMicrosoftToken G w (trim (or_str (refresh_token t) [])) = (Inl e, w1)"
  shows "sendMicrosoftEmail G toEmail t (w, tr)
           = (Inl e, w1, tr @ [TokenRequest (trim (or_str (refresh_token t) []))])"
  using p by (auto simp: sendMicrosoftEmail_def refresh_failed[OF r q])

lemma refresh_then_send:
  assumes p: "\<not> truthy (access_token t) \<or> willExpireSoon (graph_now G w) t"
      and r: "trim (or_str (refresh_token t) []) \<noteq> []"
      and q: "requestMicrosoftToken G w (trim (or_str (refresh_token t) [])) = (Inr payload, w1)"
  shows "sendMicrosoftEmail G toEmail t (w, tr)
           = send_with_retry G toEmail (refreshed_tokens (graph_now G w1) payload t)
               (w1, tr @ [TokenRequest (trim (or_str (refresh_token t) []))])"
  using p by (auto simp: sendMicrosoftEmail_def refresh_ok[OF r q])

lemma no_refresh_needed:
  "truthy (access_token t) \<Longrightarrow> \<not> willExpireSoon (graph_now G w) t
   \<Longrightarrow> sendMicrosoftEmail G toEmail t (w, tr) = send_with_retry G toEmail t (w, tr)"
  by (simp add: sendMicrosoftEmail_def)

lemma send_bound:
  "\<exists>res w' evs. sendMicrosoftEmail G toEmail t (w, tr) = (res, w', tr @ evs)
      \<and> length (filter is_send evs) \<le> 2 \<and> length (filter is_refresh evs) \<le> 2"
proof (cases "\<not> truthy (access_token t) \<or> willExpireSoon (graph_now G w) t")
  case False
  then have "sendMicrosoftEmail G toEmail t (w, tr) = send_with_retry G toEmail t (w, tr)"
    by (simp add: no_refresh_needed)
  then show ?thesis using retry_bound[of G toEmail t w tr] by auto
next
  case True
  let ?r = "trim (or_str (refresh_token t) [])"
  show ?thesis
  proof (cases "?r = []")
    case e: True
    show ?thesis by (simp add: refresh_impossible[OF True e])
  next
    case ne: False
    obtain q w1 where o: "requestMicrosoftToken G w ?r = (q, w1)"
      by (cases "requestMicrosoftToken G w ?r")
    show ?thesis
    proof (cases q)
      case (Inl e)
      then show ?thesis by (simp add: refresh_refused[OF True ne o[unfolded Inl]])
    next
      case (Inr payload)
      from retry_bound[of G toEmail "refreshed_tokens (graph_now G w1) payload t" w1 "tr @ [TokenRequest ?r]"]
      obtain res w' evs where
        b: "send_with_retry G toEmail (refreshed_tokens (graph_now G w1) payload t) (w1, tr @ [TokenRequest ?r])
              = (res, w', (tr @ [TokenRequest ?r]) @ evs)"
           "length (filter is_send evs) \<le> 2" "length (filter is_refresh evs) \<le> 1"
        by blast
      show ?thesis
        using b
        by (intro exI[of _ res] exI[of _ w'] exI[of _ "TokenRequest ?r # evs"])
           (simp add: refresh_then_send[OF True ne o[unfolded Inr]])
    qed
  qed
qed

text \<open>
  C8. A Microsoft send refreshes first when the access token is missing or
  \<open>expires_at\<close> is set and at most 60 seconds ahead, and only then. Without a refresh
  token this refresh fails before any request; with one, the token request is the first
  request made: if it is refused, its error is the outcome and nothing is sent; if it is
  answered, the send goes on with the token set of the answer. Without a refresh first, the
  send goes on with the token set as it is. The send that goes on makes the \<open>sendMail\<close>
  request with the access token; if it is accepted, this is the outcome and nothing
  follows. When it fails with a message that looks like a token problem and the token set
  has a refresh token, one token request follows; if it is answered, the send is retried
  once with the new access token and the outcome of the retry is the outcome of the call, a
  second failure included; if the token request is refused, or the refresh token is blank,
  the error of the refresh is the outcome and there is no retry. A failure that does not
  look like a token problem, or occurs with no refresh token, is the outcome at once. The
  \<open>try\<close> and \<open>catch\<close> start with the send and never make more than two sends and
  one token request; the whole call never makes more than two sends and two token requests.
\<close>

theorem C8_refresh_and_retry:
  "(expires_at t = Some e \<and> e \<noteq> 0 \<longrightarrow> willExpireSoon now t = (e \<le> now + 60 * 1000))
   \<and> (expires_at t = None \<or> expires_at t = Some 0 \<longrightarrow> \<not> willExpireSoon now t)
   \<and> (\<not> truthy (access_token t) \<or> willExpireSoon (graph_now G w) t
        \<longrightarrow> (trim (or_str (refresh_token t) []) = []
               \<longrightarrow> sendMicrosoftEmail G toEmail t (w, tr) = (Inl ''Microsoft account is missing refresh token. Reconnect the account.'', w, tr))
            \<and> (trim (or_str (refresh_token t) []) \<noteq> []
               \<longrightarrow> (requestMicrosoftToken G w (trim (or_str (refresh_token t) [])) = (Inl e', w1)
                      \<longrightarrow> sendMicrosoftEmail G toEmail t (w, tr)
                            = (Inl e', w1, tr @ [TokenRequest (trim (or_str (refresh_token t) []))]))
                   \<and> (requestMicrosoftToken G w (trim (or_str (refresh_token t) [])) = (Inr payload, w1)
                      \<longrightarrow> sendMicrosoftEmail G toEmail t (w, tr)
                            = send_with_retry G toEmail (refreshed_tokens (graph_now G w1) payload t)
                                (w1, tr @ [TokenRequest (trim (or_str (refresh_token t) []))]))))
   \<and> (truthy (access_token t) \<and> \<not> willExpireSoon (graph_now G w) t
        \<longrightarrow> sendMicrosoftEmail G toEmail t (w, tr) = send_with_retry G toEmail t (w, tr))
   \<and> (sendMailWithToken G w (access_token a) toEmail = (Inr u, w1)
        \<longrightarrow> send_with_retry G toEmail a (w, tr) = (Inr (None, a), w1, tr @ [SendMail (access_token a)]))
   \<and> (sendMailWithToken G w (access_token a) toEmail = (Inl msg, w1)
        \<longrightarrow> (\<not> looksLikeTokenIssue msg \<or> \<not> truthy (refresh_token a)
               \<longrightarrow> send_with_retry G toEmail a (w, tr) = (Inl msg, w1, tr @ [SendMail (access_token a)]))
            \<and> (looksLikeTokenIssue msg \<and> truthy (refresh_token a) \<and> trim (or_str (refresh_token a) []) = []
               \<longrightarrow> send_with_retry G toEmail a (w, tr)
                     = (Inl ''Microsoft account is missing refresh token. Reconnect the account.'', w1, tr @ [SendMail (access_token a)]))
            \<and> (looksLikeTokenIssue msg \<and> trim (or_str (refresh_token a) []) \<noteq> []
               \<longrightarrow> (requestMicrosoftToken G w1 (trim (or_str (refresh_token a) [])) = (Inl e', w2)
                      \<longrightarrow> send_with_retry G toEmail a (w, tr)
                            = (Inl e', w2, tr @ [SendMail (access_token a), TokenRequest (trim (or_str (refresh_token a) []))]))
                   \<and> (requestMicrosoftToken G w1 (trim (or_str (refresh_token a) [])) = (Inr payload, w2)
                        \<and> sendMailWithToken G w2 (access_token (refreshed_tokens (graph_now G w2) payload a)) toEmail
                            = (res2, w3)
                      \<longrightarrow> send_with_retry G toEmail a (w, tr)
                            = (case res2 of Inl msg2 \<Rightarrow> Inl msg2
                                 | Inr u \<Rightarrow> Inr (None, refreshed_tokens (graph_now G w2) payload a), w3,
                               tr @ [SendMail (access_token a), TokenRequest (trim (or_str (refresh_token a) [])),
                                     SendMail (access_token (refreshed_tokens (graph_now G w2) payload a))]))))
   \<and> access_token (refreshed_tokens now payload a) = spread (access_token a) (access_token payload)
   \<and> (\<exists>res w' evs. send_with_retry G toEmail a (w, tr) = (res, w', tr @ evs)
          \<and> length (filter is_send evs) \<le> 2 \<and> length (filter is_refresh evs) \<le> 1
          \<and> evs \<noteq> [] \<and> hd evs = SendMail (access_token a))
   \<and> (\<exists>res w' evs. sendMicrosoftEmail G toEmail t (w, tr) = (res, w', tr @ evs)
          \<and> length (filter is_send evs) \<le> 2 \<and> length (filter is_refresh evs) \<le> 2)"
proof -
  have W: "expires_at t = Some e \<and> e \<noteq> 0 \<longrightarrow> willExpireSoon now t = (e \<le> now + 60 * 1000)"
    by (simp add: willExpireSoon_iff)
  have U: "expires_at t = None \<or> expires_at t = Some 0 \<longrightarrow> \<not> willExpireSoon now t"
    using willExpireSoon_unset by blast
  have A: "\<not> truthy (access_token t) \<or> willExpireSoon (graph_now G w) t
        \<longrightarrow> (trim (or_str (refresh_token t) []) = []
               \<longrightarrow> sendMicrosoftEmail G toEmail t (w, tr) = (Inl ''Microsoft account is missing refresh token. Reconnect the account.'', w, tr))
            \<and> (trim (or_str (refresh_token t) []) \<noteq> []
               \<longrightarrow> (requestMicrosoftToken G w (trim (or_str (refresh_token t) [])) = (Inl e', w1)
                      \<longrightarrow> sendMicrosoftEmail G toEmail t (w, tr)
                            = (Inl e', w1, tr @ [TokenRequest (trim (or_str (refresh_token t) []))]))
                   \<and> (requestMicrosoftToken G w (trim (or_str (refresh_token t) [])) = (Inr payload, w1)
                      \<longrightarrow> sendMicrosoftEmail G toEmail t (w, tr)
                            = send_with_retry G toEmail (refreshed_tokens (graph_now G w1) payload t)
                                (w1, tr @ [TokenRequest (trim (or_str (refresh_token t) []))])))"
  proof (intro impI conjI)
    assume p: "\<not> truthy (access_token t) \<or> willExpireSoon (graph_now G w) t"
       and r: "trim (or_str (refresh_token t) []) = []"
    show "sendMicrosoftEmail G toEmail t (w, tr)
            = (Inl ''Microsoft account is missing refresh token. Reconnect the account.'', w, tr)"
      by (rule refresh_impossible[OF p r])
  next
    assume p: "\<not> truthy (access_token t) \<or> willExpireSoon (graph_now G w) t"
       and r: "trim (or_str (refresh_token t) []) \<noteq> []"
       and q: "requestMicrosoftToken G w (trim (or_str (refresh_token t) [])) = (Inl e', w1)"
    show "sendMicrosoftEmail G toEmail t (w, tr)
            = (Inl e', w1, tr @ [TokenRequest (trim (or_str (refresh_token t) []))])"
      by (rule refresh_refused[OF p r q])
  next
    assume p: "\<not> truthy (access_token t) \<or> willExpireSoon (graph_now G w) t"
       and r: "trim (or_str (refresh_token t) []) \<noteq> []"
       and q: "requestMicrosoftToken G w (trim (or_str (refresh_token t) [])) = (Inr payload, w1)"
    show "sendMicrosoftEmail G toEmail t (w, tr)
            = send_with_retry G toEmail (refreshed_tokens (graph_now G w1) payload t)
                (w1, tr @ [TokenRequest (trim (or_str (refresh_token t) []))])"
      by (rule refresh_then_send[OF p r q])
  qed
  have B: "truthy (access_token t) \<and> \<not> willExpireSoon (graph_now G w) t
        \<longrightarrow> sendMicrosoftEmail G toEmail t (w, tr) = send_with_retry G toEmail t (w, tr)"
    by (simp add: no_refresh_needed)
  have C: "sendMailWithToken G w (access_token a) toEmail = (Inr u, w1)
        \<longrightarrow> send_with_retry G toEmail a (w, tr) = (Inr (None, a), w1, tr @ [SendMail (access_token a)])"
    by (intro impI) (rule retry_sent)
  have D: "sendMailWithToken G w (access_token a) toEmail = (Inl msg, w1)
        \<longrightarrow> (\<not> looksLikeTokenIssue msg \<or> \<not> truthy (refresh_token a)
               \<longrightarrow> send_with_retry G toEmail a (w, tr) = (Inl msg, w1, tr @ [SendMail (access_token a)]))
            \<and> (looksLikeTokenIssue msg \<and> truthy (refresh_token a) \<and> trim (or_str (refresh_token a) []) = []
               \<longrightarrow> send_with_retry G toEmail a (w, tr)
                     = (Inl ''Microsoft account is missing refresh token. Reconnect the account.'', w1, tr @ [SendMail (access_token a)]))
            \<and> (looksLikeTokenIssue msg \<and> trim (or_str (refresh_token a) []) \<noteq> []
               \<longrightarrow> (requestMicrosoftToken G w1 (trim (or_str (refresh_token a) [])) = (Inl e', w2)
                      \<longrightarrow> send_with_retry G toEmail a (w, tr)
                            = (Inl e', w2, tr @ [SendMail (access_token a), TokenRequest (trim (or_str (refresh_token a) []))]))
                   \<and> (requestMicrosoftToken G w1 (trim (or_str (refresh_token a) [])) = (Inr payload, w2)
                        \<and> sendMailWithToken G w2 (access_token (refreshed_tokens (graph_now G w2) payload a)) toEmail
                            = (res2, w3)
                      \<longrightarrow> send_with_retry G toEmail a (w, tr)
                            = (case res2 of Inl msg2 \<Rightarrow> Inl msg2
                                 | Inr u \<Rightarrow> Inr (None, refreshed_tokens (graph_now G w2) payload a), w3,
                               tr @ [SendMail (access_token a), TokenRequest (trim (or_str (refresh_token a) [])),
                                     SendMail (access_token (refreshed_tokens (graph_now G w2) payload a))])))"
  proof (intro impI conjI)
    assume f: "sendMailWithToken G w (access_token a) toEmail = (Inl msg, w1)"
       and n: "\<not> looksLikeTokenIssue msg \<or> \<not> truthy (refresh_token a)"
    show "send_with_retry G toEmail a (w, tr) = (Inl msg, w1, tr @ [SendMail (access_token a)])"
      by (rule retry_plain[OF f n])
  next
    assume f: "sendMailWithToken G w (access_token a) toEmail = (Inl msg, w1)"
       and l: "looksLikeTokenIssue msg \<and> truthy (refresh_token a) \<and> trim (or_str (refresh_token a) []) = []"
    show "send_with_retry G toEmail a (w, tr) = (Inl ''Microsoft account is missing refresh token. Reconnect the account.'', w1, tr @ [SendMail (access_token a)])"
      using retry_blank[OF f] l by blast
  next
    assume f: "sendMailWithToken G w (access_token a) toEmail = (Inl msg, w1)"
       and l: "looksLikeTokenIssue msg \<and> trim (or_str (refresh_token a) []) \<noteq> []"
       and q: "requestMicrosoftToken G w1 (trim (or_str (refresh_token a) [])) = (Inl e', w2)"
    show "send_with_retry G toEmail a (w, tr)
            = (Inl e', w2, tr @ [SendMail (access_token a), TokenRequest (trim (or_str (refresh_token a) []))])"
      by (rule retry_refresh_failed[OF f conjunct1[OF l] conjunct2[OF l] q])
  next
    assume f: "sendMailWithToken G w (access_token a) toEmail = (Inl msg, w1)"
       and l: "looksLikeTokenIssue msg \<and> trim (or_str (refresh_token a) []) \<noteq> []"
       and q: "requestMicrosoftToken G w1 (trim (or_str (refresh_token a) [])) = (Inr payload, w2)
                 \<and> sendMailWithToken G w2 (access_token (refreshed_tokens (graph_now G w2) payload a)) toEmail
                     = (res2, w3)"
    show "send_with_retry G toEmail a (w, tr)
            = (case res2 of Inl msg2 \<Rightarrow> Inl msg2
                 | Inr u \<Rightarrow> Inr (None, refreshed_tokens (graph_now G w2) payload a), w3,
               tr @ [SendMail (access_token a), TokenRequest (trim (or_str (refresh_token a) [])),
                     SendMail (access_token (refreshed_tokens (graph_now G w2) payload a))])"
      by (rule retry_once[OF f conjunct1[OF l] conjunct2[OF l] conjunct1[OF q] conjunct2[OF q]])
  qed
  have R: "access_token (refreshed_tokens now payload a) = spread (access_token a) (access_token payload)"
    by (rule refreshed_access)
  show ?thesis
    using W U A B C D R retry_bound[of G toEmail a w tr] send_bound[of G toEmail t w tr]
    by (intro conjI)
qed

lemma example_graph_facts:
  "graph_now example_graph w = 1000 * int w"
  "sendMailWithToken example_graph w (Some ''stale'') toEmail
     = (Inl ''InvalidAuthenticationToken: Access token has expired.'', Suc w)"
  "sendMailWithToken example_graph w (Some ''new'') toEmail = (Inr (), Suc w)"
  "requestMicrosoftToken example_graph w ''r1'' = (Inr example_payload, Suc w)"
  "requestMicrosoftToken example_graph w ''r0'' = (Inl ''invalid_grant'', Suc w)"
  by (simp_all add: example_graph_def)

lemma stale_tokens_facts:
  "access_token (stale_tokens r) = Some ''stale''"
  "refresh_token (stale_tokens r) = Some r"
  "expires_at (stale_tokens r) = None"
  by (simp_all add: stale_tokens_def)

lemma example_token_issue:
  "looksLikeTokenIssue ''InvalidAuthenticationToken: Access token has expired.''"
  by (simp add: looksLikeTokenIssue_def toLowerCase_def lower_char_def)

lemma example_trims: "trim ''r1'' = ''r1''" "trim ''r0'' = ''r0''"
  by (simp_all add: trim_def is_js_space_def)

theorem C8_witness:
  "sendMicrosoftEmail example_graph ''a@x.io'' (stale_tokens ''r1'') (0, [])
     = (Inr (None, refreshed_tokens 2000 example_payload (stale_tokens ''r1'')), 3,
        [SendMail (Some ''stale''), TokenRequest ''r1'', SendMail (Some ''new'')])
   \<and> willExpireSoon (graph_now example_graph 0) expiring_tokens
   \<and> sendMicrosoftEmail example_graph ''a@x.io'' expiring_tokens (0, [])
       = (Inr (None, refreshed_tokens 1000 example_payload expiring_tokens), 2,
          [TokenRequest ''r1'', SendMail (Some ''new'')])"
proof -
  let ?t = "stale_tokens ''r1''"
  let ?x = "expiring_tokens"
  let ?m = "''InvalidAuthenticationToken: Access token has expired.''"
  have n: "refresh_token expiring_tokens = Some ''r1''" "access_token expiring_tokens = Some ''old''"
          "expires_at expiring_tokens = Some 30000"
    by (simp_all add: expiring_tokens_def)
  have acc: "\<And>now t. access_token (refreshed_tokens now example_payload t) = Some ''new''"
    by (simp add: refreshed_access example_payload_def)
  have h1: "truthy (access_token ?t) \<and> \<not> willExpireSoon (graph_now example_graph 0) ?t"
    by (simp add: stale_tokens_facts willExpireSoon_def)
  have h2: "sendMailWithToken example_graph 0 (access_token ?t) ''a@x.io'' = (Inl ?m, 1)"
    by (simp add: stale_tokens_facts example_graph_facts)
  have h3: "looksLikeTokenIssue ?m \<and> trim (or_str (refresh_token ?t) []) \<noteq> []"
    by (simp add: example_token_issue stale_tokens_facts example_trims)
  have h4: "requestMicrosoftToken example_graph 1 (trim (or_str (refresh_token ?t) [])) = (Inr example_payload, 2)
            \<and> sendMailWithToken example_graph 2 (access_token (refreshed_tokens (graph_now example_graph 2) example_payload ?t)) ''a@x.io''
                = (Inr (), 3)"
    by (simp add: stale_tokens_facts example_trims example_graph_facts acc)
  note th1 = C8_refresh_and_retry [where t="?t" and G=example_graph and w=0 and toEmail="''a@x.io''" and tr="[]"
         and a="?t" and msg="?m" and ?w1.0=1 and ?w2.0=2 and payload=example_payload and ?res2.0="Inr ()" and ?w3.0=3]
  have a1: "sendMicrosoftEmail example_graph ''a@x.io'' ?t (0, []) = send_with_retry example_graph ''a@x.io'' ?t (0, [])"
    using th1[THEN conjunct2, THEN conjunct2, THEN conjunct2, THEN conjunct1] h1 by blast
  have a2: "send_with_retry example_graph ''a@x.io'' ?t (0, [])
              = (case (Inr () :: string + unit) of Inl msg2 \<Rightarrow> Inl msg2
                   | Inr u \<Rightarrow> Inr (None, refreshed_tokens (graph_now example_graph 2) example_payload ?t), 3,
                 [] @ [SendMail (access_token ?t), TokenRequest (trim (or_str (refresh_token ?t) [])),
                       SendMail (access_token (refreshed_tokens (graph_now example_graph 2) example_payload ?t))])"
    using th1[THEN conjunct2, THEN conjunct2, THEN conjunct2, THEN conjunct2, THEN conjunct2, THEN conjunct1]
          h2 h3 h4 by blast
  have first: "sendMicrosoftEmail example_graph ''a@x.io'' ?t (0, [])
     = (Inr (None, refreshed_tokens 2000 example_payload ?t), 3,
        [SendMail (Some ''stale''), TokenRequest ''r1'', SendMail (Some ''new'')])"
    unfolding a1 a2 by (simp add: stale_tokens_facts example_trims example_graph_facts acc)
  have g1: "willExpireSoon (graph_now example_graph 0) ?x"
    by (simp add: willExpireSoon_def n example_graph_facts)
  have g2: "trim (or_str (refresh_token ?x) []) \<noteq> []" by (simp add: n example_trims)
  have g3: "requestMicrosoftToken example_graph 0 (trim (or_str (refresh_token ?x) [])) = (Inr example_payload, 1)"
    by (simp add: n example_trims example_graph_facts)
  have g4: "sendMailWithToken example_graph 1 (access_token (refreshed_tokens (graph_now example_graph 1) example_payload ?x)) ''a@x.io''
              = (Inr (), 2)"
    by (simp add: acc example_graph_facts)
  note th2 = C8_refresh_and_retry [where t="?x" and G=example_graph and w=0 and toEmail="''a@x.io''" and tr="[]"
         and ?w1.0=1 and payload=example_payload]
  have b1: "sendMicrosoftEmail example_graph ''a@x.io'' ?x (0, [])
              = send_with_retry example_graph ''a@x.io'' (refreshed_tokens (graph_now example_graph 1) example_payload ?x)
                  (1, [] @ [TokenRequest (trim (or_str (refresh_token ?x) []))])"
    using th2[THEN conjunct2, THEN conjunct2, THEN conjunct1] g1 g2 g3 by blast
  note th3 = C8_refresh_and_retry [where G=example_graph and w=1 and toEmail="''a@x.io''"
         and tr="[TokenRequest ''r1'']"
         and a="refreshed_tokens (graph_now example_graph 1) example_payload ?x" and ?w1.0=2 and u="()"]
  have b2: "send_with_retry example_graph ''a@x.io'' (refreshed_tokens (graph_now example_graph 1) example_payload ?x)
              (1, [TokenRequest ''r1''])
              = (Inr (None, refreshed_tokens (graph_now example_graph 1) example_payload ?x), 2,
                 [TokenRequest ''r1''] @ [SendMail (access_token (refreshed_tokens (graph_now example_graph 1) example_payload ?x))])"
    using th3[THEN conjunct2, THEN conjunct2, THEN conjunct2, THEN conjunct2, THEN conjunct1] g4 by blast
  have second: "sendMicrosoftEmail example_graph ''a@x.io'' ?x (0, [])
       = (Inr (None, refreshed_tokens 1000 example_payload ?x), 2, [TokenRequest ''r1'', SendMail (Some ''new'')])"
    unfolding b1 using b2 by (simp add: n example_trims example_graph_facts acc)
  show ?thesis using first g1 second by simp
qed

text \<open>
  The claim as written fails when the token request of the refresh is refused: the send
  failed with a token problem, a refresh token is there, one refresh is made, and no retry
  follows.
\<close>

theorem C8_counterexample:
  "sendMailWithToken example_graph 0 (access_token (stale_tokens ''r0'')) ''a@x.io''
     = (Inl ''InvalidAuthenticationToken: Access token has expired.'', 1)
   \<and> looksLikeTokenIssue ''InvalidAuthenticationToken: Access token has expired.''
   \<and> truthy (refresh_token (stale_tokens ''r0''))
   \<and> sendMicrosoftEmail example_graph ''a@x.io'' (stale_tokens ''r0'') (0, [])
       = (Inl ''invalid_grant'', 2, [SendMail (Some ''stale''), TokenRequest ''r0''])
   \<and> length (filter is_send [SendMail (Some ''stale''), TokenRequest ''r0'']) = 1"
  by (simp add: example_token_issue stale_tokens_facts example_graph_facts example_trims
        sendMicrosoftEmail_def send_with_retry_def send_mail_def refreshMicrosoftTokens_def
        willExpireSoon_def Let_def)

subsection \<open>Dot-stuffing\<close>

lemma chars_distinct [simp]:
  "CR \<noteq> LF" "LF \<noteq> CR" "DOT \<noteq> CR" "DOT \<noteq> LF" "CR \<noteq> DOT" "LF \<noteq> DOT"
  "\<not> is_line_terminator DOT" "is_line_terminator CR" "is_line_terminator LF"
  by (simp_all add: CR_def LF_def DOT_def LS_def PS_def is_line_terminator_def)

lemma split_crlf_nonempty: "split_crlf s \<noteq> []"
  by (induction s rule: split_crlf.induct) (auto split: list.splits elim: cons_first.elims)

lemma split_crlf_cons: "x \<noteq> CR \<Longrightarrow> split_crlf (x # s) = cons_first x (split_crlf s)"
  by (cases s) simp_all

lemma cons_first_append: "ls \<noteq> [] \<Longrightarrow> cons_first x (ls @ ms) = cons_first x ls @ ms"
  by (cases ls) simp_all

lemma join_cons_first: "ls \<noteq> [] \<Longrightarrow> join_crlf (cons_first x ls) = x # join_crlf ls"
  by (cases ls rule: join_crlf.cases) simp_all

lemma join_split: "join_crlf (split_crlf s) = s"
proof (induction s rule: split_crlf.induct)
  case 1
  show ?case by simp
next
  case (2 x)
  show ?case by simp
next
  case (3 x y zs)
  show ?case
  proof (cases "x = CR \<and> y = LF")
    case True
    then show ?thesis using 3 split_crlf_nonempty[of zs]
      by (cases "split_crlf zs") simp_all
  next
    case False
    then have e: "split_crlf (x # y # zs) = cons_first x (split_crlf (y # zs))" by auto
    from False 3 have "join_crlf (split_crlf (y # zs)) = y # zs" by blast
    then show ?thesis unfolding e by (simp add: join_cons_first split_crlf_nonempty)
  qed
qed

lemma split_terminator:
  "split_crlf (s @ [CR, LF, DOT, CR, LF]) = split_crlf s @ [[DOT], []]"
proof (induction s rule: split_crlf.induct)
  case 1
  show ?case by simp
next
  case (2 x)
  show ?case by simp
next
  case (3 x y zs)
  show ?case
  proof (cases "x = CR \<and> y = LF")
    case True
    then show ?thesis using 3 by simp
  next
    case False
    then have e: "split_crlf (x # y # zs) = cons_first x (split_crlf (y # zs))"
      "split_crlf (x # y # zs @ [CR, LF, DOT, CR, LF])
         = cons_first x (split_crlf (y # zs @ [CR, LF, DOT, CR, LF]))" by auto
    from False 3 have "split_crlf (y # zs @ [CR, LF, DOT, CR, LF]) = split_crlf (y # zs) @ [[DOT], []]"
      by auto
    then show ?thesis using e by (simp add: cons_first_append split_crlf_nonempty)
  qed
qed

lemma crlf_only_cons:
  "x \<noteq> CR \<Longrightarrow> x \<noteq> LF \<Longrightarrow> x \<noteq> LS \<Longrightarrow> x \<noteq> PS \<Longrightarrow> crlf_only (x # t) = crlf_only t"
  by (cases t) simp_all

lemma no_bare_cr_normalized: "no_bare_cr s \<Longrightarrow> crlf_only (normalize_newlines s)"
proof (induction s rule: no_bare_cr.induct)
  case 1
  show ?case by simp
next
  case (2 x)
  then show ?case by (simp add: crlf_only_cons)
next
  case (3 x y zs)
  show ?case
  proof (cases "x = CR \<and> y = LF")
    case True
    then show ?thesis using 3 by simp
  next
    case False
    then have n: "x \<noteq> CR" "x \<noteq> LS" "x \<noteq> PS" "no_bare_cr (y # zs)"
      using "3.prems" by auto
    from False 3 n have ih: "crlf_only (normalize_newlines (y # zs))" by blast
    show ?thesis
    proof (cases "x = LF")
      case True
      then show ?thesis using ih by simp
    next
      case xl: False
      have "normalize_newlines (x # y # zs) = x # normalize_newlines (y # zs)"
        using n xl by simp
      then show ?thesis using ih n xl by (simp add: crlf_only_cons)
    qed
  qed
qed

lemma crlf_only_fixed: "crlf_only s \<Longrightarrow> normalize_newlines s = s"
proof (induction s rule: crlf_only.induct)
  case 1
  show ?case by simp
next
  case (2 x)
  then show ?case by simp
next
  case (3 x y zs)
  show ?case
  proof (cases "x = CR \<and> y = LF")
    case True
    then show ?thesis using 3 by simp
  next
    case False
    then have n: "x \<noteq> CR" "x \<noteq> LF" "crlf_only (y # zs)" using "3.prems" by auto
    from False 3 n have "normalize_newlines (y # zs) = y # zs" by blast
    then show ?thesis using n by simp
  qed
qed

lemma stuff_lines_cons_first:
  "\<not> is_line_terminator x \<Longrightarrow> ls \<noteq> [] \<Longrightarrow>
   stuff_lines b (cons_first x ls)
     = (if b \<and> x = DOT then cons_first DOT (cons_first DOT (stuff_lines False ls))
        else cons_first x (stuff_lines False ls))"
  by (cases ls) auto

lemma stuff_lines_nonempty: "ls \<noteq> [] \<Longrightarrow> stuff_lines b ls \<noteq> []"
  by (cases ls) simp_all

lemma stuff_lines_True: "stuff_lines True ls = map stuff_line ls"
  by (cases ls) simp_all

lemma split_stuffed:
  "crlf_only s \<Longrightarrow> split_crlf (stuff_dots b s) = stuff_lines b (split_crlf s)"
proof (induction s arbitrary: b rule: crlf_only.induct)
  case 1
  show ?case by simp
next
  case (2 x)
  then have "\<not> is_line_terminator x" by (simp add: is_line_terminator_def)
  then show ?case by (simp add: split_crlf_cons)
next
  case (3 x y zs)
  show ?case
  proof (cases "x = CR \<and> y = LF")
    case True
    then have "crlf_only zs" using "3.prems" by simp
    from "3.IH"(1)[OF True this, of True]
    have "split_crlf (stuff_dots True zs) = map stuff_line (split_crlf zs)"
      by (simp add: stuff_lines_True)
    then show ?thesis using True by simp
  next
    case False
    then have n: "x \<noteq> CR" "\<not> is_line_terminator x" "crlf_only (y # zs)"
      using "3.prems" by (auto simp: is_line_terminator_def)
    from "3.IH"(2)[OF False n(3), of False]
    have ih: "split_crlf (stuff_dots False (y # zs)) = stuff_lines False (split_crlf (y # zs))" .
    have e: "split_crlf (x # y # zs) = cons_first x (split_crlf (y # zs))"
      using n(1) by (rule split_crlf_cons)
    have ne: "split_crlf (y # zs) \<noteq> []" by (rule split_crlf_nonempty)
    show ?thesis
    proof (cases "b \<and> x = DOT")
      case True
      then have "stuff_dots b (x # y # zs) = DOT # DOT # stuff_dots False (y # zs)"
        using n(2) by simp
      then have "split_crlf (stuff_dots b (x # y # zs))
                   = cons_first DOT (cons_first DOT (split_crlf (stuff_dots False (y # zs))))"
        by (simp add: split_crlf_cons del: stuff_dots.simps split_crlf.simps)
      moreover have "stuff_lines b (split_crlf (x # y # zs))
                   = cons_first DOT (cons_first DOT (stuff_lines False (split_crlf (y # zs))))"
        unfolding e using True stuff_lines_cons_first[OF n(2) ne, of b] by simp
      ultimately show ?thesis by (simp only: ih)
    next
      case nb: False
      then have "stuff_dots b (x # y # zs) = x # stuff_dots False (y # zs)"
        using n(2) by auto
      then have "split_crlf (stuff_dots b (x # y # zs))
                   = cons_first x (split_crlf (stuff_dots False (y # zs)))"
        using n(1) by (simp add: split_crlf_cons del: stuff_dots.simps split_crlf.simps)
      moreover have "stuff_lines b (split_crlf (x # y # zs))
                   = cons_first x (stuff_lines False (split_crlf (y # zs)))"
        unfolding e using nb stuff_lines_cons_first[OF n(2) ne, of b] by auto
      ultimately show ?thesis by (simp only: ih)
    qed
  qed
qed

lemma unstuff_stuff: "unstuff_line (stuff_line l) = l"
  by (cases l rule: unstuff_line.cases) auto

lemma stuff_line_not_dot: "stuff_line l \<noteq> [DOT]"
  by (cases l rule: unstuff_line.cases) auto

lemma payload_lines:
  assumes "no_bare_cr raw"
  shows "split_crlf (data_payload raw)
           = map stuff_line (split_crlf (normalize_newlines raw)) @ [[DOT], []]"
  unfolding data_payload_def dotStuff_def split_terminator
  by (simp add: split_stuffed[OF no_bare_cr_normalized[OF assms]] stuff_lines_True)

lemma lone_dot_absent: "[DOT] \<notin> set (map stuff_line ls)"
proof
  assume "[DOT] \<in> set (map stuff_line ls)"
  then obtain l where "stuff_line l = [DOT]" by auto
  then show False using stuff_line_not_dot by blast
qed

lemma receive_stuffed:
  "received = map stuff_line ls @ [[DOT], []]
   \<Longrightarrow> takeWhile (\<lambda>l. l \<noteq> [DOT]) received = map stuff_line ls"
  using stuff_line_not_dot by (induction ls arbitrary: received) (auto simp del: stuff_line.simps)

text \<open>
  C9. For a message whose line terminators are LF and CR LF only, the payload written
  after \<open>DATA\<close> consists of the lines of the message with line endings made CR LF, each
  line that begins with a dot given one more dot, followed by a line that is a lone dot;
  no earlier line is a lone dot. The reader that splits at CR LF, stops at the lone dot and
  drops one dot from each line beginning with two recovers the message with its line
  endings made CR LF, which is the message itself when its line endings were CR LF already.
  The line \<open>.leading dot\<close> is sent as \<open>..leading dot\<close>.
\<close>

theorem C9_dot_stuffing:
  assumes "no_bare_cr raw"
  shows "split_crlf (data_payload raw)
           = map stuff_line (split_crlf (normalize_newlines raw)) @ [[DOT], []]
       \<and> [DOT] \<notin> set (map stuff_line (split_crlf (normalize_newlines raw)))
       \<and> smtp_receive (data_payload raw) = Some (normalize_newlines raw)
       \<and> (crlf_only raw \<longrightarrow> smtp_receive (data_payload raw) = Some raw)
       \<and> dotStuff (js ''.leading dot'') = js ''..leading dot''"
proof -
  let ?L = "split_crlf (normalize_newlines raw)"
  note pl = payload_lines[OF assms]
  have tw: "takeWhile (\<lambda>l. l \<noteq> [DOT]) (split_crlf (data_payload raw)) = map stuff_line ?L"
    by (rule receive_stuffed[OF pl])
  have un: "map unstuff_line (map stuff_line ?L) = ?L"
    by (simp add: unstuff_stuff comp_def)
  have r: "smtp_receive (data_payload raw) = Some (normalize_newlines raw)"
    unfolding smtp_receive_def Let_def tw un join_split by (simp add: pl)
  have ex: "dotStuff (js ''.leading dot'') = js ''..leading dot''"
    by (simp add: dotStuff_def js_def DOT_def LF_def CR_def LS_def PS_def is_line_terminator_def)
  show ?thesis
    using pl lone_dot_absent[of ?L] r ex by (simp add: crlf_only_fixed)
qed

theorem C9_witness:
  "no_bare_cr (js ''.leading dot'')
   \<and> smtp_receive (data_payload (js ''.leading dot'')) = Some (js ''.leading dot'')
   \<and> dotStuff (js ''.leading dot'') = js ''..leading dot''"
proof -
  have h: "no_bare_cr (js ''.leading dot'')"
    by (simp add: js_def CR_def LF_def LS_def PS_def)
  have c: "crlf_only (js ''.leading dot'')"
    by (simp add: js_def CR_def LF_def LS_def PS_def)
  have "smtp_receive (data_payload (js ''.leading dot'')) = Some (js ''.leading dot'')"
    using C9_dot_stuffing [OF h] c by blast
  moreover have "dotStuff (js ''.leading dot'') = js ''..leading dot''"
    using C9_dot_stuffing [OF h] by blast
  ultimately show ?thesis using h by blast
qed

text \<open>
  The claim as written fails on a message with a bare LF: what the reader recovers has
  CR LF in its place.
\<close>

theorem C9_counterexample:
  "smtp_receive (data_payload [97, LF, 98]) = Some [97, CR, LF, 98]
   \<and> [97, CR, LF, 98] \<noteq> [97, LF, 98 :: 16 word]"
  by (simp add: smtp_receive_def data_payload_def dotStuff_def Let_def
        DOT_def LF_def CR_def LS_def PS_def is_line_terminator_def)

text \<open>
  A CR that is not followed by LF is a line terminator for \<open>^\<close> but not for the reader:
  the dot after it is doubled and stays doubled.
\<close>

lemma bare_cr_dot_example:
  "dotStuff [97, CR, DOT, 98] = [97, CR, DOT, DOT, 98]
   \<and> smtp_receive (data_payload [97, CR, DOT, 98]) = Some [97, CR, DOT, DOT, 98]"
  by (simp add: smtp_receive_def data_payload_def dotStuff_def Let_def
        DOT_def LF_def CR_def LS_def PS_def is_line_terminator_def)

end
